theory Spec2Isabelle
  imports Main
begin

section \<open>Object dispatch of tg.controllers.dispatcher\<close>

text \<open>
  A shallow embedding of \<^verbatim>\<open>src/tg/controllers/dispatcher.py\<close>: the dispatch state,
  the object-dispatch tree walk with its fallback search, the extension stripping of
  \<^verbatim>\<open>_get_dispatchable\<close> and the two argument-binding helpers.
\<close>

subsection \<open>Values, exceptions and the controller graph\<close>

text \<open>Python objects (controllers, bound methods, classes) are named by an identity.\<close>

type_synonym obj = nat

text \<open>Parameter values: a string, or a sequence of strings (a repeated key, a remainder).\<close>

datatype pyval = Str string | Seq "string list"

text \<open>
  The exceptions that leave the modelled functions. \<open>HTTPNotFound\<close> is raised by the
  fallback search; the others come from list and dict accesses or from the external hooks
  (\<^verbatim>\<open>_check_security\<close>, \<^verbatim>\<open>lookup\<close>, a constructor), which may raise anything.
\<close>

datatype error =
    HTTPNotFound
  | IndexError
  | KeyError
  | AttributeError
  | TypeError
  | NotImplementedError
  | Forbidden
  | Unauthorized

text \<open>
  The traversal steps of one dispatch, in the order in which they happen: the calls of
  the state's mutators and of the external hooks. The source keeps no such log; it is
  carried in the state so that statements about which steps run can be made.
\<close>

datatype event =
    AddController string obj
  | AddMethod obj "string list"
  | Pop
  | CheckSecurity obj
  | CallLookup obj "string list"
  | Instantiate obj

subsection \<open>tg.util.odict\<close>

text \<open>
  Modelled from the spec: the class \<^verbatim>\<open>odict\<close> of \<^verbatim>\<open>tg.util\<close>, which is not among the
  sources. The spec describes \<^verbatim>\<open>visitedControllers\<close> as an ordered mapping from the
  path segment at which a controller was entered to the controller, whose accessor
  returns the most recently added controller and errors if there is none. So a key is
  held once, and setting a key puts it on top.
\<close>

type_synonym odict = "(string \<times> obj) list"

definition odict_setitem :: "string \<Rightarrow> obj \<Rightarrow> odict \<Rightarrow> odict" where
  "odict_setitem k v od = filter (\<lambda>kv. fst kv \<noteq> k) od @ [(k, v)]"

text \<open>\<^verbatim>\<open>getitem(-1)\<close>\<close>

definition odict_getitem_last :: "odict \<Rightarrow> error + obj" where
  "odict_getitem_last od = (if od = [] then Inl IndexError else Inr (snd (last od)))"

definition odict_pop :: "odict \<Rightarrow> error + odict" where
  "odict_pop od = (if od = [] then Inl IndexError else Inr (butlast od))"

subsection \<open>DispatchState\<close>

text \<open>
  The fields of \<^verbatim>\<open>DispatchState\<close>, with \<open>method_of\<close> for the source's \<^verbatim>\<open>method\<close>,
  and the log of the traversal steps.
\<close>

record DispatchState =
  url_path :: "string list"
  params :: "string \<rightharpoonup> pyval"
  controller_path :: odict
  routing_args :: "string \<rightharpoonup> pyval"
  method_of :: "obj option"
  remainder :: "string list option"
  dispatcher :: "obj option"
  trace :: "event list"

text \<open>\<^verbatim>\<open>DispatchState.__init__\<close>\<close>

definition DispatchState_init :: "string list \<Rightarrow> (string \<rightharpoonup> pyval) \<Rightarrow> DispatchState" where
  "DispatchState_init url_path0 params0 =
     \<lparr> url_path = url_path0, params = params0, controller_path = [],
       routing_args = Map.empty, method_of = None, remainder = None,
       dispatcher = None, trace = [] \<rparr>"

definition add_controller :: "string \<Rightarrow> obj \<Rightarrow> DispatchState \<Rightarrow> DispatchState" where
  "add_controller location c st =
     st\<lparr> controller_path := odict_setitem location c (controller_path st),
         trace := trace st @ [AddController location c] \<rparr>"

definition add_method :: "obj \<Rightarrow> string list \<Rightarrow> DispatchState \<Rightarrow> DispatchState" where
  "add_method m rem st =
     st\<lparr> method_of := Some m, remainder := Some rem,
         trace := trace st @ [AddMethod m rem] \<rparr>"

text \<open>The property \<^verbatim>\<open>controller\<close>: the controller on top of the stack.\<close>

definition controller :: "DispatchState \<Rightarrow> error + obj" where
  "controller st = odict_getitem_last (controller_path st)"

text \<open>
  The loop of \<^verbatim>\<open>add_routing_args\<close>. The loop variable \<open>i\<close> outlives the loop: it
  holds the last index that \<^verbatim>\<open>enumerate\<close> produced, or its initial value when
  \<open>fixed_args\<close> is empty. The second argument is the index \<^verbatim>\<open>enumerate\<close> yields next.
\<close>

fun routing_loop ::
  "nat \<Rightarrow> nat \<Rightarrow> string list \<Rightarrow> string list \<Rightarrow> (string \<rightharpoonup> pyval) \<Rightarrow> nat \<times> (string \<rightharpoonup> pyval)"
where
  "routing_loop i k [] rem ra = (i, ra)"
| "routing_loop i k (arg # fixed_args) rem ra =
     (if k \<ge> length rem then (k, ra)
      else routing_loop k (Suc k) fixed_args rem (ra(arg \<mapsto> Str (rem ! k))))"

definition add_routing_args ::
  "string \<Rightarrow> string list \<Rightarrow> string list \<Rightarrow> bool \<Rightarrow> DispatchState \<Rightarrow> DispatchState"
where
  "add_routing_args current_path rem fixed_args var_args st =
     (let (i, ra) = routing_loop 0 0 fixed_args rem (routing_args st);
          rem1 = drop i rem
      in if var_args \<and> rem1 \<noteq> []
         then st\<lparr> routing_args := ra(current_path \<mapsto> Seq rem1) \<rparr>
         else st\<lparr> routing_args := ra \<rparr>)"

subsection \<open>The controller graph\<close>

datatype outcome = Returned | Raised error

text \<open>
  A function of the source returns or raises; the state it mutated is there either way.
\<close>

type_synonym result = "outcome \<times> DispatchState"

text \<open>
  What dispatch asks of the objects it walks over: attribute access (\<open>None\<close> where
  \<^verbatim>\<open>hasattr\<close> is false), \<^verbatim>\<open>inspect.ismethod\<close> and \<^verbatim>\<open>inspect.isclass\<close>, the call of
  a class, of the \<^verbatim>\<open>_check_security\<close> hook (\<open>Some e\<close> when it raises \<open>e\<close>) and of the
  \<^verbatim>\<open>lookup\<close> hook, and the \<^verbatim>\<open>_dispatch\<close> method of an object that overrides the one
  of \<^verbatim>\<open>ObjectDispatcher\<close> (\<open>None\<close> when the object inherits it).
\<close>

record graph =
  getattr_of :: "obj \<Rightarrow> string \<Rightarrow> obj option"
  ismethod :: "obj \<Rightarrow> bool"
  isclass :: "obj \<Rightarrow> bool"
  instantiate :: "obj \<Rightarrow> error + obj"
  check_security :: "obj \<Rightarrow> error option"
  call_lookup :: "obj \<Rightarrow> string list \<Rightarrow> error + (obj \<times> string list)"
  custom_dispatch :: "obj \<Rightarrow> (DispatchState \<Rightarrow> string list \<Rightarrow> result) option"

definition hasattr :: "graph \<Rightarrow> obj \<Rightarrow> string \<Rightarrow> bool" where
  "hasattr g c name = (getattr_of g c name \<noteq> None)"

text \<open>\<^verbatim>\<open>ObjectDispatcher._is_exposed\<close> (its \<^verbatim>\<open>None\<close> is read as false by every caller).\<close>

definition is_exposed :: "graph \<Rightarrow> obj \<Rightarrow> string \<Rightarrow> bool" where
  "is_exposed g c name =
     (case getattr_of g c name of None \<Rightarrow> False | Some a \<Rightarrow> ismethod g a)"

text \<open>\<^verbatim>\<open>ObjectDispatcher._is_controller\<close>\<close>

definition is_controller :: "graph \<Rightarrow> obj \<Rightarrow> string \<Rightarrow> bool" where
  "is_controller g c name =
     (case getattr_of g c name of None \<Rightarrow> False | Some a \<Rightarrow> \<not> ismethod g a)"

text \<open>The statement \<^verbatim>\<open>obj._check_security()\<close>.\<close>

definition call_check_security ::
  "graph \<Rightarrow> obj \<Rightarrow> DispatchState \<Rightarrow> error option \<times> DispatchState"
where
  "call_check_security g ob st =
     (check_security g ob, st\<lparr> trace := trace st @ [CheckSecurity ob] \<rparr>)"

subsection \<open>ObjectDispatcher\<close>

text \<open>
  The three methods \<^verbatim>\<open>_dispatch\<close>, \<^verbatim>\<open>_dispatch_controller\<close> and
  \<^verbatim>\<open>_dispatch_first_found_default_or_lookup\<close> call each other, and a \<^verbatim>\<open>lookup\<close> hook
  may send the walk round for ever. So \<open>dispatch\<close> takes fuel, one unit for every call of
  \<^verbatim>\<open>_dispatch\<close>, and is \<open>None\<close> when the fuel runs out. The other two take the
  \<^verbatim>\<open>_dispatch\<close> they call as the argument \<open>rec\<close>: it is given the object whose
  \<^verbatim>\<open>_dispatch\<close> is called, the state and the remainder.
\<close>

type_synonym dispatch_fn = "obj \<Rightarrow> DispatchState \<Rightarrow> string list \<Rightarrow> result option"

text \<open>The call \<^verbatim>\<open>controller._dispatch(state, remainder)\<close>.\<close>

definition call_dispatch ::
  "graph \<Rightarrow> dispatch_fn \<Rightarrow> obj \<Rightarrow> DispatchState \<Rightarrow> string list \<Rightarrow> result option"
where
  "call_dispatch g rec c st rem =
     (case custom_dispatch g c of
        Some f \<Rightarrow> Some (f st rem)
      | None \<Rightarrow> rec c st rem)"

definition dispatch_controller ::
  "graph \<Rightarrow> dispatch_fn \<Rightarrow> obj \<Rightarrow> string \<Rightarrow> obj \<Rightarrow> DispatchState \<Rightarrow> string list
     \<Rightarrow> result option"
where
  "dispatch_controller g rec self current_path c st rem =
     (if hasattr g c ''_dispatch'' then
        (case (if isclass g c
               then (instantiate g c, st\<lparr> trace := trace st @ [Instantiate c] \<rparr>)
               else (Inr c, st)) of
           (Inl e, st0) \<Rightarrow> Some (Raised e, st0)
         | (Inr c1, st0) \<Rightarrow>
             (let ob = (case getattr_of g c1 ''im_self'' of Some s \<Rightarrow> s | None \<Rightarrow> c1) in
              case (if hasattr g ob ''_check_security''
                    then call_check_security g ob st0 else (None, st0)) of
                (Some e, st1) \<Rightarrow> Some (Raised e, st1)
              | (None, st1) \<Rightarrow>
                  call_dispatch g rec c1
                    ((add_controller current_path c1 st1)\<lparr> dispatcher := Some c1 \<rparr>) rem))
      else rec self (add_controller current_path c st) rem)"

text \<open>
  The loop of \<^verbatim>\<open>_dispatch_first_found_default_or_lookup\<close>, with the number of
  iterations left. \<open>orig_url_path\<close> is the list the state held on entry. When the
  remainder was empty on entry the state still holds that very list (\<open>same_list\<close>), and
  what \<^verbatim>\<open>state.url_path.pop()\<close> removes is gone from \<open>orig_url_path\<close> too; otherwise
  the state holds a sliced copy and \<open>orig_url_path\<close> stays as it was.
\<close>

fun first_found_loop ::
  "graph \<Rightarrow> dispatch_fn \<Rightarrow> obj \<Rightarrow> string list \<Rightarrow> bool \<Rightarrow> nat \<Rightarrow> DispatchState \<Rightarrow> string list
     \<Rightarrow> result option"
where
  "first_found_loop g rec self orig_url_path same_list 0 st rem =
     Some (Raised HTTPNotFound, st)"
| "first_found_loop g rec self orig_url_path same_list (Suc i) st rem =
     (case controller st of
        Inl e \<Rightarrow> Some (Raised e, st)
      | Inr c \<Rightarrow>
          if is_exposed g c ''default'' then
            (case getattr_of g c ''default'' of
               None \<Rightarrow> Some (Raised AttributeError, st)
             | Some m \<Rightarrow> Some (Returned, (add_method m rem st)\<lparr> dispatcher := Some self \<rparr>))
          else if is_exposed g c ''lookup'' then
            (let st1 = st\<lparr> trace := trace st @ [CallLookup c rem] \<rparr> in
             case call_lookup g c rem of
               Inl e \<Rightarrow> Some (Raised e, st1)
             | Inr (c', rem') \<Rightarrow>
                 dispatch_controller g rec self ''lookup'' c'
                   (st1\<lparr> url_path := (if same_list then url_path st1 else orig_url_path) \<rparr>)
                   rem')
          else
            (case odict_pop (controller_path st) of
               Inl e \<Rightarrow> Some (Raised e, st)
             | Inr cp \<Rightarrow>
                 (let st1 = st\<lparr> controller_path := cp, trace := trace st @ [Pop] \<rparr> in
                  if url_path st1 \<noteq> [] then
                    first_found_loop g rec self orig_url_path same_list i
                      (st1\<lparr> url_path := butlast (url_path st1) \<rparr>)
                      (last (url_path st1) # rem)
                  else first_found_loop g rec self orig_url_path same_list i st1 rem)))"

definition dispatch_first_found_default_or_lookup ::
  "graph \<Rightarrow> dispatch_fn \<Rightarrow> obj \<Rightarrow> DispatchState \<Rightarrow> string list \<Rightarrow> result option"
where
  "dispatch_first_found_default_or_lookup g rec self st rem =
     (let orig_url_path = url_path st;
          st1 = (if rem \<noteq> []
                 then st\<lparr> url_path :=
                        take (length (url_path st) - length rem) (url_path st) \<rparr>
                 else st)
      in first_found_loop g rec self orig_url_path (rem = [])
           (length (controller_path st1)) st1 rem)"

text \<open>The body of \<^verbatim>\<open>ObjectDispatcher._dispatch\<close>.\<close>

definition dispatch_body ::
  "graph \<Rightarrow> dispatch_fn \<Rightarrow> obj \<Rightarrow> DispatchState \<Rightarrow> string list \<Rightarrow> result option"
where
  "dispatch_body g rec self st rem =
     (case controller st of
        Inl e \<Rightarrow> Some (Raised e, st)
      | Inr current_controller \<Rightarrow>
          (case (if hasattr g current_controller ''_check_security''
                 then call_check_security g current_controller st else (None, st)) of
             (Some e, st1) \<Rightarrow> Some (Raised e, st1)
           | (None, st1) \<Rightarrow>
               (case rem of
                  [] \<Rightarrow>
                    (case getattr_of g current_controller ''index'' of
                       Some m \<Rightarrow> Some (Returned, add_method m rem st1)
                     | None \<Rightarrow> dispatch_first_found_default_or_lookup g rec self st1 rem)
                | current_path # rest \<Rightarrow>
                    if is_exposed g current_controller current_path then
                      (case getattr_of g current_controller current_path of
                         None \<Rightarrow> Some (Raised AttributeError, st1)
                       | Some m \<Rightarrow> Some (Returned, add_method m rest st1))
                    else
                      (case getattr_of g current_controller current_path of
                         Some c \<Rightarrow> dispatch_controller g rec self current_path c st1 rest
                       | None \<Rightarrow>
                           dispatch_first_found_default_or_lookup g rec self st1 rem))))"

primrec dispatch ::
  "nat \<Rightarrow> graph \<Rightarrow> obj \<Rightarrow> DispatchState \<Rightarrow> string list \<Rightarrow> result option"
where
  "dispatch 0 g self st rem = None"
| "dispatch (Suc n) g self st rem = dispatch_body g (dispatch n g) self st rem"

subsection \<open>Dispatcher._get_dispatchable\<close>

text \<open>\<^verbatim>\<open>s.rfind(c)\<close>: the highest index of \<open>c\<close> in \<open>s\<close>, or \<open>-1\<close>.\<close>

fun rfind :: "char \<Rightarrow> string \<Rightarrow> int" where
  "rfind c [] = -1"
| "rfind c (x # xs) =
     (let r = rfind c xs in if r \<ge> 0 then r + 1 else if x = c then 0 else -1)"

text \<open>The slices \<^verbatim>\<open>s[i:]\<close> and \<^verbatim>\<open>s[:i]\<close>; a negative index counts from the end.\<close>

definition slice_from :: "'a list \<Rightarrow> int \<Rightarrow> 'a list" where
  "slice_from xs i = (if i \<ge> 0 then drop (nat i) xs else drop (length xs - nat (- i)) xs)"

definition slice_to :: "'a list \<Rightarrow> int \<Rightarrow> 'a list" where
  "slice_to xs i = (if i \<ge> 0 then take (nat i) xs else take (length xs - nat (- i)) xs)"

text \<open>
  The first part of \<^verbatim>\<open>_get_dispatchable\<close>: it returns the path with its last segment
  rewritten, and what it stores in \<^verbatim>\<open>pylons.request.response_type\<close> and
  \<^verbatim>\<open>pylons.request.response_ext\<close>. \<^verbatim>\<open>mimetypes.guess_type\<close> is a parameter, reduced to
  the type it guesses (\<open>None\<close> when it guesses none).
\<close>

definition strip_extension ::
  "(string \<Rightarrow> string option) \<Rightarrow> string list \<Rightarrow> string list \<times> string option \<times> string option"
where
  "strip_extension guess_type path =
     (if path \<noteq> [] \<and> CHR ''.'' \<in> set (last path) then
        (let last_remainder = last path in
         case guess_type last_remainder of
           None \<Rightarrow> (path, None, None)
         | Some mime_type \<Rightarrow>
             if mime_type \<noteq> [] then
               (let extension_spot = rfind CHR ''.'' last_remainder;
                    extension = slice_from last_remainder extension_spot
                in (butlast path @ [slice_to last_remainder extension_spot],
                    Some mime_type, Some extension))
             else (path, None, None))
      else (path, None, None))"

text \<open>
  \<^verbatim>\<open>_get_dispatchable\<close> up to the call of \<^verbatim>\<open>_dispatch\<close>: the response type, the
  response extension and what the dispatch gives. The lines after the call (the
  controller url, the merge of the parameters into the routing arguments, the tuple
  handed to the invocation) are not modelled.
\<close>

definition get_dispatchable ::
  "(string \<Rightarrow> string option) \<Rightarrow> nat \<Rightarrow> graph \<Rightarrow> obj \<Rightarrow> string list \<Rightarrow> (string \<rightharpoonup> pyval)
     \<Rightarrow> string option \<times> string option \<times> result option"
where
  "get_dispatchable guess_type n g self url_path0 params0 =
     (let (url_path1, response_type, response_ext) = strip_extension guess_type url_path0;
          st = add_controller ''/'' self (DispatchState_init url_path1 params0);
          st1 = st\<lparr> dispatcher := Some self \<rparr>
      in (response_type, response_ext,
          case controller st1 of
            Inl e \<Rightarrow> Some (Raised e, st1)
          | Inr c \<Rightarrow> call_dispatch g (dispatch n g) c st1 url_path1))"

subsection \<open>Argument binding\<close>

text \<open>
  The parameter mapping and the remainder are objects that the caller keeps: a heap
  holds the dicts and the lists, each at an address, and \<^verbatim>\<open>params.copy()\<close> allocates.
\<close>

type_synonym addr = nat

record heap =
  dict_at :: "addr \<Rightarrow> (string \<rightharpoonup> pyval)"
  list_at :: "addr \<Rightarrow> pyval list"
  next_addr :: addr

text \<open>What \<^verbatim>\<open>inspect.getargspec\<close> returns (\<^verbatim>\<open>_get_argspec\<close> only caches it).\<close>

record argspec =
  args :: "string list"
  varargs :: "string option"
  varkw :: "string option"
  defaults :: "pyval list option"

definition dict_copy :: "addr \<Rightarrow> heap \<Rightarrow> addr \<times> heap" where
  "dict_copy p h =
     (next_addr h,
      h\<lparr> dict_at := (dict_at h)(next_addr h := dict_at h p),
         next_addr := Suc (next_addr h) \<rparr>)"

definition dict_setitem :: "addr \<Rightarrow> string \<Rightarrow> pyval \<Rightarrow> heap \<Rightarrow> heap" where
  "dict_setitem p k v h = h\<lparr> dict_at := (dict_at h)(p := (dict_at h p)(k \<mapsto> v)) \<rparr>"

definition dict_delitem :: "addr \<Rightarrow> string \<Rightarrow> heap \<Rightarrow> heap" where
  "dict_delitem p k h = h\<lparr> dict_at := (dict_at h)(p := (dict_at h p)(k := None)) \<rparr>"

definition list_setitem :: "addr \<Rightarrow> nat \<Rightarrow> pyval \<Rightarrow> heap \<Rightarrow> heap" where
  "list_setitem r i v h = h\<lparr> list_at := (list_at h)(r := (list_at h r)[i := v]) \<rparr>"

text \<open>The loop of \<^verbatim>\<open>_get_params_with_argspec\<close>.\<close>

fun params_loop :: "nat \<Rightarrow> string list \<Rightarrow> addr \<Rightarrow> addr \<Rightarrow> heap \<Rightarrow> heap" where
  "params_loop i [] p r h = h"
| "params_loop i (var # argvars) p r h =
     (if i \<ge> length (list_at h r) then h
      else params_loop (Suc i) argvars p r (dict_setitem p var (list_at h r ! i) h))"

text \<open>
  \<^verbatim>\<open>_get_params_with_argspec\<close>: the address of the mapping it returns, and the heap.
  \<^verbatim>\<open>enumerate(remainder)\<close> is an object, so the test reads \<open>argvars\<close> alone.
\<close>

definition get_params_with_argspec :: "argspec \<Rightarrow> addr \<Rightarrow> addr \<Rightarrow> heap \<Rightarrow> addr \<times> heap" where
  "get_params_with_argspec spec p r h =
     (let (p1, h1) = dict_copy p h;
          argvars = tl (args spec)
      in if argvars \<noteq> [] then (p1, params_loop 0 argvars p1 r h1) else (p1, h1))"

text \<open>
  The two loops of \<^verbatim>\<open>_remove_argspec_params_from_params\<close>. In the first,
  \<^verbatim>\<open>params[var]\<close> is read before \<^verbatim>\<open>remainder[i]\<close> is written.
\<close>

fun required_loop ::
  "nat \<Rightarrow> string list \<Rightarrow> addr \<Rightarrow> addr \<Rightarrow> heap \<Rightarrow> error option \<times> heap"
where
  "required_loop i [] p r h = (None, h)"
| "required_loop i (var # required_vars) p r h =
     (case dict_at h p var of
        None \<Rightarrow> (Some KeyError, h)
      | Some v \<Rightarrow>
          if i < length (list_at h r)
          then required_loop (Suc i) required_vars p r
                 (dict_delitem p var (list_setitem r i v h))
          else (Some IndexError, h))"

fun optional_loop :: "string list \<Rightarrow> addr \<Rightarrow> heap \<Rightarrow> heap" where
  "optional_loop [] p h = h"
| "optional_loop (var # optional_vars) p h =
     optional_loop optional_vars p
       (if dict_at h p var \<noteq> None then dict_delitem p var h else h)"

text \<open>
  \<^verbatim>\<open>_remove_argspec_params_from_params\<close>: the addresses of the mapping and of the
  remainder it returns, or the exception, and the heap.
\<close>

definition remove_argspec_params_from_params ::
  "argspec \<Rightarrow> addr \<Rightarrow> addr \<Rightarrow> heap \<Rightarrow> (error + addr \<times> addr) \<times> heap"
where
  "remove_argspec_params_from_params spec p r h =
     (let argvars = tl (args spec) in
      if argvars = [] \<or> list_at h r = [] then (Inr (p, r), h)
      else
        (let argvals = (case defaults spec of None \<Rightarrow> [] | Some d \<Rightarrow> d);
             required_vars =
               (if argvals \<noteq> [] then take (length argvals - 1) argvars else argvars);
             optional_vars =
               (if argvals \<noteq> [] then drop (length argvals - 1) argvars else []);
             (p1, h1) = dict_copy p h
         in case required_loop 0 required_vars p1 r h1 of
              (Some e, h2) \<Rightarrow> (Inl e, h2)
            | (None, h2) \<Rightarrow> (Inr (p1, r), optional_loop optional_vars p1 h2)))"

subsection \<open>Predicates on runs\<close>

text \<open>The steps that set the handler.\<close>

definition is_add_method :: "event \<Rightarrow> bool" where
  "is_add_method e = (case e of AddMethod m r \<Rightarrow> True | _ \<Rightarrow> False)"

text \<open>
  A run from \<open>st\<close> with the result \<open>res\<close> sets the handler at most once: its steps
  are added to the log; if it returns, \<^verbatim>\<open>add_method\<close> is its last step and its only
  call of \<^verbatim>\<open>add_method\<close>, and the state holds what that call was given; if it raises,
  \<^verbatim>\<open>add_method\<close> was not called and the handler and its remainder are untouched.
\<close>

definition resolves_at_most_once :: "DispatchState \<Rightarrow> result \<Rightarrow> bool" where
  "resolves_at_most_once st res =
     (\<exists>new. trace (snd res) = trace st @ new \<and>
        (case fst res of
           Returned \<Rightarrow>
             (\<exists>pre m r. new = pre @ [AddMethod m r] \<and> (\<forall>e \<in> set pre. \<not> is_add_method e)
                \<and> method_of (snd res) = Some m \<and> remainder (snd res) = Some r)
         | Raised e \<Rightarrow>
             (\<forall>e \<in> set new. \<not> is_add_method e)
             \<and> method_of (snd res) = method_of st \<and> remainder (snd res) = remainder st))"

text \<open>
  Between \<open>st\<close> and \<open>st1\<close> steps were taken, none of them \<^verbatim>\<open>add_method\<close>, and the
  handler and its remainder are as they were.
\<close>

definition quiet :: "DispatchState \<Rightarrow> DispatchState \<Rightarrow> bool" where
  "quiet st st1 =
     ((\<exists>q. trace st1 = trace st @ q \<and> (\<forall>e \<in> set q. \<not> is_add_method e))
      \<and> method_of st1 = method_of st \<and> remainder st1 = remainder st)"

text \<open>The property of the \<^verbatim>\<open>_dispatch\<close> that the other two methods call.\<close>

definition rec_once :: "dispatch_fn \<Rightarrow> bool" where
  "rec_once rec = (\<forall>c st rem res. rec c st rem = Some res \<longrightarrow> resolves_at_most_once st res)"

text \<open>
  What \<^verbatim>\<open>_dispatch_controller\<close> does with an object that has a \<^verbatim>\<open>_dispatch\<close>
  before it adds it to the state: the exception raised or the instance it goes on with,
  and the steps taken. They depend on the graph alone.
\<close>

definition entry_steps :: "graph \<Rightarrow> obj \<Rightarrow> (error + obj) \<times> event list" where
  "entry_steps g c =
     (case (if isclass g c then (instantiate g c, [Instantiate c]) else (Inr c, [])) of
        (Inl e, evs) \<Rightarrow> (Inl e, evs)
      | (Inr c1, evs) \<Rightarrow>
          (let ob = (case getattr_of g c1 ''im_self'' of Some s \<Rightarrow> s | None \<Rightarrow> c1) in
           if hasattr g ob ''_check_security'' then
             (case check_security g ob of
                Some e \<Rightarrow> (Inl e, evs @ [CheckSecurity ob])
              | None \<Rightarrow> (Inr c1, evs @ [CheckSecurity ob]))
           else (Inr c1, evs)))"

text \<open>The controller has a \<^verbatim>\<open>default\<close> or a \<^verbatim>\<open>lookup\<close> that the fallback search takes.\<close>

definition exposes_default_or_lookup :: "graph \<Rightarrow> obj \<Rightarrow> bool" where
  "exposes_default_or_lookup g c = (is_exposed g c ''default'' \<or> is_exposed g c ''lookup'')"

text \<open>
  The url path that the fallback search starts from: the path of the state, without the
  remainder when there is one.
\<close>

definition matched_path :: "DispatchState \<Rightarrow> string list \<Rightarrow> string list" where
  "matched_path st rem =
     (if rem \<noteq> [] then take (length (url_path st) - length rem) (url_path st)
      else url_path st)"

text \<open>
  The state after the search has gone past \<open>j\<close> controllers: each is popped, and with
  each the last segment of the url path, while there is one.
\<close>

definition backtrack :: "nat \<Rightarrow> DispatchState \<Rightarrow> DispatchState" where
  "backtrack j st =
     st\<lparr> url_path := take (length (url_path st) - j) (url_path st),
         controller_path := take (length (controller_path st) - j) (controller_path st),
         trace := trace st @ replicate j Pop \<rparr>"

text \<open>
  Where the search stands once it has gone past \<open>j\<close> controllers: its state, and the
  remainder it holds, the popped segments in path order before the remainder it was
  given.
\<close>

definition found_state :: "nat \<Rightarrow> DispatchState \<Rightarrow> string list \<Rightarrow> DispatchState" where
  "found_state j st rem = backtrack j (st\<lparr> url_path := matched_path st rem \<rparr>)"

definition found_remainder :: "nat \<Rightarrow> DispatchState \<Rightarrow> string list \<Rightarrow> string list" where
  "found_remainder j st rem =
     drop (length (matched_path st rem) - j) (matched_path st rem) @ rem"

text \<open>
  The state in which a \<^verbatim>\<open>lookup\<close> found there has been called, and the state handed on
  with what it returned: the url path is set back to the list held on entry, which
  has lost the popped segments when the search was entered with an empty remainder.
\<close>

definition lookup_state :: "nat \<Rightarrow> obj \<Rightarrow> DispatchState \<Rightarrow> string list \<Rightarrow> DispatchState" where
  "lookup_state j c st rem =
     (found_state j st rem)
       \<lparr> trace := trace (found_state j st rem) @ [CallLookup c (found_remainder j st rem)] \<rparr>"

definition restart_state :: "nat \<Rightarrow> obj \<Rightarrow> DispatchState \<Rightarrow> string list \<Rightarrow> DispatchState" where
  "restart_state j c st rem =
     (lookup_state j c st rem)
       \<lparr> url_path := (if rem = [] then url_path (found_state j st rem) else url_path st) \<rparr>"

text \<open>
  An ordinary controller: an instance, not a bound method, that inherits \<^verbatim>\<open>_dispatch\<close>
  from \<^verbatim>\<open>ObjectDispatcher\<close> and whose security check, if it has one, passes.
\<close>

definition ordinary :: "graph \<Rightarrow> obj \<Rightarrow> bool" where
  "ordinary g c =
     (custom_dispatch g c = None \<and> \<not> isclass g c \<and> getattr_of g c ''im_self'' = None
      \<and> (hasattr g c ''_check_security'' \<longrightarrow> check_security g c = None))"

text \<open>The number of controllers that the fallback search has popped so far.\<close>

definition pops :: "DispatchState \<Rightarrow> nat" where
  "pops st = length (filter (\<lambda>e. e = Pop) (trace st))"

text \<open>
  Two runs of the \<^verbatim>\<open>_dispatch\<close> that the other two methods call agree: from states with
  the same controller on top and on the same remainder, if the first run comes back
  and has popped no controller, the second comes back the same way, and with the same
  handler and remainder if they return.
\<close>

definition rec_agrees :: "dispatch_fn \<Rightarrow> bool" where
  "rec_agrees rec =
     (\<forall>s1 s2 st1 st2 rem out st1'.
        controller st1 = controller st2 \<and> rec s1 st1 rem = Some (out, st1')
          \<and> pops st1' = pops st1
        \<longrightarrow> (\<exists>st2'. rec s2 st2 rem = Some (out, st2')
               \<and> (out = Returned \<longrightarrow> method_of st2' = method_of st1'
                                    \<and> remainder st2' = remainder st1')))"

text \<open>
  The state in which \<^verbatim>\<open>_dispatch\<close> goes on after the security check of the current
  controller, when it has one and it passes.
\<close>

definition after_security :: "graph \<Rightarrow> obj \<Rightarrow> DispatchState \<Rightarrow> DispatchState" where
  "after_security g c st =
     (if hasattr g c ''_check_security''
      then st\<lparr> trace := trace st @ [CheckSecurity c] \<rparr> else st)"



subsection \<open>Example graphs, signatures and heaps\<close>

text \<open>
  A root controller \<open>0\<close> with a passing \<^verbatim>\<open>_check_security\<close> and a sub-controller
  \<open>1\<close> under \<^verbatim>\<open>a\<close>, which has a \<^verbatim>\<open>lookup\<close> and a security check of its own. Objects
  from \<open>10\<close> on are bound methods.
\<close>

definition hooks_graph :: graph where
  "hooks_graph =
     \<lparr> getattr_of = (\<lambda>c name.
         if c = 0 \<and> name = ''_check_security'' then Some 30
         else if c = 0 \<and> name = ''a'' then Some 1
         else if c = 1 \<and> name = ''lookup'' then Some 31
         else if c = 1 \<and> name = ''_check_security'' then Some 32
         else if c \<le> 1 \<and> name = ''_dispatch'' then Some 20
         else None),
       ismethod = (\<lambda>x. x \<ge> 10),
       isclass = (\<lambda>x. False),
       instantiate = (\<lambda>x. Inr x),
       check_security = (\<lambda>x. None),
       call_lookup = (\<lambda>x r. Inr (0, [])),
       custom_dispatch = (\<lambda>x. None) \<rparr>"

text \<open>The same graph with a root whose security check raises.\<close>

definition denying_graph :: graph where
  "denying_graph =
     hooks_graph\<lparr> check_security := (\<lambda>x. if x = 0 then Some Forbidden else None) \<rparr>"

text \<open>The signature of \<^verbatim>\<open>def handler(self, a, b, c=1)\<close>.\<close>

definition abc_spec :: argspec where
  "abc_spec = \<lparr> args = [''self'', ''a'', ''b'', ''c''], varargs = None, varkw = None,
                defaults = Some [Str ''1''] \<rparr>"

text \<open>
  A heap with the mapping \<^verbatim>\<open>{'a': 'A', 'b': 'B'}\<close> and the remainder
  \<^verbatim>\<open>['x', 'y']\<close>, both at address \<open>0\<close>.
\<close>

definition ab_heap :: heap where
  "ab_heap = \<lparr> dict_at = (\<lambda>_. [''a'' \<mapsto> Str ''A'', ''b'' \<mapsto> Str ''B'']),
               list_at = (\<lambda>_. [Str ''x'', Str ''y'']),
               next_addr = 1 \<rparr>"

text \<open>
  The root \<open>0\<close> with the chain of sub-controllers \<open>1\<close>, \<open>2\<close>, \<open>3\<close> under
  \<^verbatim>\<open>a\<close>, \<^verbatim>\<open>b\<close>, \<^verbatim>\<open>c\<close>; only \<open>2\<close> has a \<^verbatim>\<open>default\<close>, the method \<open>10\<close>.
  The state in which \<^verbatim>\<open>_get_dispatchable\<close> calls \<^verbatim>\<open>_dispatch\<close> for the path
  \<^verbatim>\<open>/a/b/c/extra\<close>, and the state in which that dispatch ends.
\<close>

definition chain_graph :: graph where
  "chain_graph =
     \<lparr> getattr_of = (\<lambda>c name.
         if c = 0 \<and> name = ''a'' then Some 1
         else if c = 1 \<and> name = ''b'' then Some 2
         else if c = 2 \<and> name = ''c'' then Some 3
         else if c = 2 \<and> name = ''default'' then Some 10
         else if c \<le> 3 \<and> name = ''_dispatch'' then Some 20
         else None),
       ismethod = (\<lambda>x. x \<ge> 10),
       isclass = (\<lambda>x. False),
       instantiate = (\<lambda>x. Inr x),
       check_security = (\<lambda>x. None),
       call_lookup = (\<lambda>x r. Inl TypeError),
       custom_dispatch = (\<lambda>x. None) \<rparr>"

definition chain_start :: DispatchState where
  "chain_start =
     (add_controller ''/'' 0 (DispatchState_init [''a'', ''b'', ''c'', ''extra''] Map.empty))
       \<lparr> dispatcher := Some 0 \<rparr>"

definition chain_final :: DispatchState where
  "chain_final =
     \<lparr> url_path = [''a'', ''b''], params = Map.empty,
       controller_path = [(''/'', 0), (''a'', 1), (''b'', 2)],
       routing_args = Map.empty, method_of = Some 10,
       remainder = Some [''c'', ''extra''], dispatcher = Some 3,
       trace = [AddController ''/'' 0, AddController ''a'' 1, AddController ''b'' 2,
                AddController ''c'' 3, Pop, AddMethod 10 [''c'', ''extra'']] \<rparr>"



text \<open>
  A root \<open>0\<close> whose only capability is a \<^verbatim>\<open>lookup\<close>. For the segment \<^verbatim>\<open>q\<close> it
  returns the controller \<open>1\<close>, which has nothing, with the remainder \<^verbatim>\<open>['y']\<close>; for
  anything else it returns the controller \<open>2\<close>, which has the method \<open>12\<close> under
  \<^verbatim>\<open>y\<close>, with the same remainder.
\<close>

definition restart_graph :: graph where
  "restart_graph =
     \<lparr> getattr_of = (\<lambda>c name.
         if c = 0 \<and> name = ''lookup'' then Some 10
         else if c = 2 \<and> name = ''y'' then Some 12
         else if c \<le> 2 \<and> name = ''_dispatch'' then Some 20
         else None),
       ismethod = (\<lambda>x. x \<ge> 10),
       isclass = (\<lambda>x. False),
       instantiate = (\<lambda>x. Inr x),
       check_security = (\<lambda>x. None),
       call_lookup = (\<lambda>x r. if r = [''q''] then Inr (1, [''y'']) else Inr (2, [''y''])),
       custom_dispatch = (\<lambda>x. None) \<rparr>"

text \<open>The state in which \<^verbatim>\<open>_get_dispatchable\<close> calls \<^verbatim>\<open>_dispatch\<close> on a controller.\<close>

definition fresh_state :: "obj \<Rightarrow> string list \<Rightarrow> (string \<rightharpoonup> pyval) \<Rightarrow> DispatchState" where
  "fresh_state c path ps =
     (add_controller ''/'' c (DispatchState_init path ps))\<lparr> dispatcher := Some c \<rparr>"



section \<open>Properties\<close>

subsection \<open>The state\<close>

lemma controller_add_controller [simp]: "controller (add_controller k c st) = Inr c"
  by (simp add: controller_def add_controller_def odict_getitem_last_def odict_setitem_def)

lemma controller_dispatcher_update [simp]: "controller (st\<lparr> dispatcher := d \<rparr>) = controller st"
  by (simp add: controller_def)

lemma controller_trace_update [simp]: "controller (st\<lparr> trace := t \<rparr>) = controller st"
  by (simp add: controller_def)

lemma controller_url_path_update [simp]: "controller (st\<lparr> url_path := t \<rparr>) = controller st"
  by (simp add: controller_def)

text \<open>
  Claim C5. \<^verbatim>\<open>add_routing_args\<close> should store under the path key only the entries
  beyond those bound to the fixed names. For the fixed names \<^verbatim>\<open>['a']\<close> and the
  remainder \<^verbatim>\<open>['x', 'y']\<close> the code slices at the last index of the loop, not after
  it: \<^verbatim>\<open>'x'\<close> is bound to \<^verbatim>\<open>a\<close> and is stored again under the path key.
\<close>

theorem add_routing_args_repeats_last_fixed:
  "routing_args (add_routing_args ''p'' [''x'', ''y''] [''a''] True
       (DispatchState_init [] Map.empty)) ''a'' = Some (Str ''x'')
   \<and> routing_args (add_routing_args ''p'' [''x'', ''y''] [''a''] True
       (DispatchState_init [] Map.empty)) ''p'' = Some (Seq [''x'', ''y''])"
  by (simp add: add_routing_args_def DispatchState_init_def)

subsection \<open>Exposure and security\<close>

text \<open>
  Claim C10. The exposure test holds exactly when the controller has the attribute and
  the attribute is a method, whatever its name. So a path segment that names a method
  of the current controller resolves to it, with the rest of the path as its remainder,
  once the controller's own security check (if it has one) has passed.
\<close>

theorem every_method_is_exposed:
  "(is_exposed g c name \<longleftrightarrow> (\<exists>m. getattr_of g c name = Some m \<and> ismethod g m))
   \<and> (controller st = Inr c
        \<and> (hasattr g c ''_check_security'' \<longrightarrow> check_security g c = None)
        \<and> getattr_of g c name = Some m \<and> ismethod g m
      \<longrightarrow> (\<exists>st'. dispatch (Suc n) g self st (name # rest) = Some (Returned, st')
             \<and> method_of st' = Some m \<and> remainder st' = Some rest))"
  by (auto simp: is_exposed_def dispatch_body_def call_check_security_def add_method_def
           split: option.splits)

theorem every_method_is_exposed_witness:
  "is_exposed hooks_graph 0 ''_check_security''
   \<and> (\<exists>st'. dispatch (Suc 0) hooks_graph 0
               (add_controller ''/'' 0 (DispatchState_init [''_check_security'', ''x''] Map.empty))
               [''_check_security'', ''x''] = Some (Returned, st')
          \<and> method_of st' = Some 30 \<and> remainder st' = Some [''x''])"
  using every_method_is_exposed [of hooks_graph 0 "''_check_security''"
      "add_controller ''/'' 0 (DispatchState_init [''_check_security'', ''x''] Map.empty)"
      30 0 0 "[''x'']"]
  by (simp add: hooks_graph_def hasattr_def)

text \<open>
  Claim C6. When the security check of the root controller raises, the dispatch started
  by \<^verbatim>\<open>_get_dispatchable\<close> raises the same exception, for every graph below the root
  and every path. The state then has no method, and the only steps taken are the entry
  of the root and its security check: no other check, no \<^verbatim>\<open>lookup\<close>, no handler.
\<close>

theorem root_security_denial_short_circuits:
  assumes "custom_dispatch g root = None"
      and "hasattr g root ''_check_security''"
      and "check_security g root = Some e"
  shows "\<exists>rt re st'.
           get_dispatchable guess (Suc n) g root path ps = (rt, re, Some (Raised e, st'))
           \<and> method_of st' = None
           \<and> trace st' = [AddController ''/'' root, CheckSecurity root]"
proof -
  obtain p rt re where s: "strip_extension guess path = (p, rt, re)"
    by (cases "strip_extension guess path") auto
  let ?st = "(add_controller ''/'' root (DispatchState_init p ps))\<lparr> dispatcher := Some root \<rparr>"
  have "get_dispatchable guess (Suc n) g root path ps
          = (rt, re, dispatch_body g (dispatch n g) root ?st p)"
    using s assms(1) by (simp add: get_dispatchable_def call_dispatch_def)
  moreover have "dispatch_body g (dispatch n g) root ?st p
          = Some (Raised e, ?st\<lparr> trace := trace ?st @ [CheckSecurity root] \<rparr>)"
    using assms by (simp add: dispatch_body_def call_check_security_def)
  ultimately show ?thesis
    by (simp add: add_controller_def DispatchState_init_def)
qed

theorem root_security_denial_short_circuits_witness:
  "\<exists>rt re st'.
     get_dispatchable (\<lambda>s. None) (Suc 0) denying_graph 0 [''a'', ''b''] Map.empty
       = (rt, re, Some (Raised Forbidden, st'))
     \<and> method_of st' = None \<and> trace st' = [AddController ''/'' 0, CheckSecurity 0]"
  using root_security_denial_short_circuits
          [of denying_graph 0 Forbidden "\<lambda>s. None" 0 "[''a'', ''b'']" Map.empty]
  by (simp add: denying_graph_def hooks_graph_def hasattr_def)

subsection \<open>Extension stripping\<close>


subsection \<open>Argument binding\<close>

lemma params_loop_frame: "q \<noteq> p \<Longrightarrow> dict_at (params_loop i vars p r h) q = dict_at h q"
  by (induction i vars p r h rule: params_loop.induct) (auto simp: dict_setitem_def)

lemma required_loop_frame:
  "q \<noteq> p \<Longrightarrow> dict_at (snd (required_loop i vars p r h)) q = dict_at h q"
  by (induction i vars p r h rule: required_loop.induct)
     (auto simp: dict_delitem_def list_setitem_def split: option.splits)

lemma required_loop_result_frame:
  "required_loop i vars p r h = (e, h2) \<Longrightarrow> q \<noteq> p \<Longrightarrow> dict_at h2 q = dict_at h q"
  using required_loop_frame [of q p i vars r h] by simp

lemma optional_loop_frame: "q \<noteq> p \<Longrightarrow> dict_at (optional_loop vars p h) q = dict_at h q"
  by (induction vars p h rule: optional_loop.induct) (auto simp: dict_delitem_def)

text \<open>
  Claim C4. \<^verbatim>\<open>_remove_argspec_params_from_params\<close> should move every parameter
  without a declared default that the mapping holds into its slot of the remainder. For
  \<^verbatim>\<open>handler(self, a, b, c=1)\<close>, the mapping \<^verbatim>\<open>{'a': 'A', 'b': 'B'}\<close> and the remainder
  \<^verbatim>\<open>['x', 'y']\<close> the code splits the names at the number of defaults less one, that is
  at \<open>0\<close>: it takes \<^verbatim>\<open>a\<close> and \<^verbatim>\<open>b\<close> for optional, deletes them from the copy of the
  mapping and leaves the remainder as it was.
\<close>

theorem remove_argspec_params_skips_required:
  "fst (remove_argspec_params_from_params abc_spec 0 0 ab_heap) = Inr (1, 0)
   \<and> list_at (snd (remove_argspec_params_from_params abc_spec 0 0 ab_heap)) 0
       = [Str ''x'', Str ''y'']
   \<and> dict_at (snd (remove_argspec_params_from_params abc_spec 0 0 ab_heap)) 1 ''a'' = None
   \<and> dict_at (snd (remove_argspec_params_from_params abc_spec 0 0 ab_heap)) 1 ''b'' = None"
  by (simp add: remove_argspec_params_from_params_def abc_spec_def ab_heap_def
        dict_copy_def dict_delitem_def list_setitem_def)

text \<open>
  Claim C9. Neither \<^verbatim>\<open>_get_params_with_argspec\<close> nor
  \<^verbatim>\<open>_remove_argspec_params_from_params\<close> changes the mapping of the caller: after the
  call, also one that raised, the dict at the address passed in is what it was. Every
  write goes to the copy.
\<close>

theorem binding_keeps_callers_params:
  assumes "p < next_addr h"
  shows "dict_at (snd (get_params_with_argspec spec p r h)) p = dict_at h p
       \<and> dict_at (snd (remove_argspec_params_from_params spec p r h)) p = dict_at h p"
proof -
  have ne: "p \<noteq> next_addr h" using assms by simp
  have a: "dict_at (snd (get_params_with_argspec spec p r h)) p = dict_at h p"
    using ne by (simp add: get_params_with_argspec_def dict_copy_def Let_def params_loop_frame)
  have b: "dict_at (snd (remove_argspec_params_from_params spec p r h)) p = dict_at h p"
    using ne
    by (auto simp: remove_argspec_params_from_params_def dict_copy_def Let_def
          optional_loop_frame
        dest!: required_loop_result_frame [where q = p]
        split: prod.splits option.splits)
  show ?thesis using a b by simp
qed

theorem binding_keeps_callers_params_witness:
  "(0::nat) < next_addr ab_heap
   \<and> dict_at (snd (get_params_with_argspec abc_spec 0 0 ab_heap)) 0 = dict_at ab_heap 0
   \<and> dict_at (snd (remove_argspec_params_from_params abc_spec 0 0 ab_heap)) 0
       = dict_at ab_heap 0"
proof -
  have h: "(0::nat) < next_addr ab_heap" by (simp add: ab_heap_def)
  show ?thesis using h binding_keeps_callers_params [OF h, of abc_spec 0] by simp
qed

subsection \<open>The handler is set at most once\<close>

lemma quiet_refl [simp]: "quiet st st"
  by (simp add: quiet_def)

lemma quiet_trans: "quiet st st1 \<Longrightarrow> quiet st1 st2 \<Longrightarrow> quiet st st2"
  by (auto simp: quiet_def)

lemma quiet_event:
  "quiet st st1 \<Longrightarrow> \<not> is_add_method e \<Longrightarrow> quiet st (st1\<lparr> trace := trace st1 @ [e] \<rparr>)"
  by (auto simp: quiet_def)

lemma quiet_fields [simp]:
  "quiet st (st1\<lparr> url_path := u \<rparr>) = quiet st st1"
  "quiet st (st1\<lparr> controller_path := cp \<rparr>) = quiet st st1"
  "quiet st (st1\<lparr> dispatcher := d \<rparr>) = quiet st st1"
  by (simp_all add: quiet_def)

lemma quiet_add_controller: "quiet st st1 \<Longrightarrow> quiet st (add_controller k c st1)"
  by (auto simp: quiet_def add_controller_def is_add_method_def)

lemma once_raised: "quiet st st1 \<Longrightarrow> resolves_at_most_once st (Raised e, st1)"
  by (auto simp: quiet_def resolves_at_most_once_def)

lemma once_returned:
  "quiet st st1 \<Longrightarrow> resolves_at_most_once st (Returned, (add_method m r st1)\<lparr> dispatcher := d \<rparr>)"
  "quiet st st1 \<Longrightarrow> resolves_at_most_once st (Returned, add_method m r st1)"
  by (auto simp: quiet_def resolves_at_most_once_def add_method_def)

lemma once_quiet: "quiet st st1 \<Longrightarrow> resolves_at_most_once st1 res \<Longrightarrow> resolves_at_most_once st res"
  by (cases "fst res") (auto simp: quiet_def resolves_at_most_once_def)

lemma rec_onceD:
  "rec_once rec \<Longrightarrow> rec c st1 rem = Some res \<Longrightarrow> quiet st st1 \<Longrightarrow> resolves_at_most_once st res"
  unfolding rec_once_def using once_quiet by blast

lemma call_dispatch_inherited:
  "custom_dispatch g c = None \<Longrightarrow> call_dispatch g rec c st rem = rec c st rem"
  by (simp add: call_dispatch_def)

lemma trace_append_Nil [simp]: "st\<lparr> trace := trace st \<rparr> = st"
  by simp

lemma dispatch_controller_eq:
  assumes "\<forall>c. custom_dispatch g c = None"
  shows "dispatch_controller g rec self k c st rem =
     (if hasattr g c ''_dispatch'' then
        (case entry_steps g c of
           (Inl e, evs) \<Rightarrow> Some (Raised e, st\<lparr> trace := trace st @ evs \<rparr>)
         | (Inr c1, evs) \<Rightarrow>
             rec c1 ((add_controller k c1 (st\<lparr> trace := trace st @ evs \<rparr>))
                       \<lparr> dispatcher := Some c1 \<rparr>) rem)
      else rec self (add_controller k c st) rem)"
  using assms
  by (auto simp: dispatch_controller_def entry_steps_def call_dispatch_inherited Let_def
        call_check_security_def split: sum.splits option.splits)

lemma entry_steps_quiet:
  "entry_steps g c = (r, evs) \<Longrightarrow> e \<in> set evs \<Longrightarrow> \<not> is_add_method e \<and> e \<noteq> Pop"
  by (auto simp: entry_steps_def Let_def is_add_method_def split: if_splits sum.splits option.splits)

lemma quiet_events:
  "quiet st st1 \<Longrightarrow> \<forall>e \<in> set evs. \<not> is_add_method e \<Longrightarrow> quiet st (st1\<lparr> trace := trace st1 @ evs \<rparr>)"
  by (auto simp: quiet_def)

lemma dispatch_controller_once:
  assumes nc: "\<forall>c. custom_dispatch g c = None" and rec: "rec_once rec"
      and q: "quiet st st1"
      and run: "dispatch_controller g rec self k c st1 rem = Some res"
  shows "resolves_at_most_once st res"
proof (cases "hasattr g c ''_dispatch''")
  case False
  with run nc have "rec self (add_controller k c st1) rem = Some res"
    by (simp add: dispatch_controller_eq)
  then show ?thesis using rec q quiet_add_controller rec_onceD by blast
next
  case True
  obtain r evs where es: "entry_steps g c = (r, evs)" by (cases "entry_steps g c") auto
  have q2: "quiet st (st1\<lparr> trace := trace st1 @ evs \<rparr>)"
    using q es entry_steps_quiet quiet_events by blast
  show ?thesis
  proof (cases r)
    case (Inl e)
    with run True nc es have "res = (Raised e, st1\<lparr> trace := trace st1 @ evs \<rparr>)"
      by (simp add: dispatch_controller_eq)
    then show ?thesis using q2 once_raised by simp
  next
    case (Inr c1)
    with run True nc es
    have "rec c1 ((add_controller k c1 (st1\<lparr> trace := trace st1 @ evs \<rparr>))
                    \<lparr> dispatcher := Some c1 \<rparr>) rem = Some res"
      by (simp add: dispatch_controller_eq)
    moreover have "quiet st ((add_controller k c1 (st1\<lparr> trace := trace st1 @ evs \<rparr>))
                    \<lparr> dispatcher := Some c1 \<rparr>)"
      using q2 by (simp add: quiet_add_controller)
    ultimately show ?thesis using rec rec_onceD by blast
  qed
qed

lemma first_found_loop_once:
  assumes nc: "\<forall>c. custom_dispatch g c = None" and rec: "rec_once rec"
  shows "quiet st st1 \<Longrightarrow> first_found_loop g rec self orig same i st1 rem = Some res
           \<Longrightarrow> resolves_at_most_once st res"
proof (induction i arbitrary: st1 rem)
  case 0
  then show ?case using once_raised by auto
next
  case (Suc i)
  note q = Suc.prems(1) and run = Suc.prems(2)
  show ?case
  proof (cases "controller st1")
    case (Inl e)
    with run have "res = (Raised e, st1)" by simp
    then show ?thesis using q once_raised by simp
  next
    case (Inr c)
    show ?thesis
    proof (cases "is_exposed g c ''default''")
      case True
      then obtain m where "getattr_of g c ''default'' = Some m"
        by (auto simp: is_exposed_def split: option.splits)
      with run Inr True have "res = (Returned, (add_method m rem st1)\<lparr> dispatcher := Some self \<rparr>)"
        by simp
      then show ?thesis using q once_returned by simp
    next
      case nodef: False
      show ?thesis
      proof (cases "is_exposed g c ''lookup''")
        case True
        let ?st2 = "st1\<lparr> trace := trace st1 @ [CallLookup c rem] \<rparr>"
        have q2: "quiet st ?st2" using q by (simp add: quiet_event is_add_method_def)
        show ?thesis
        proof (cases "call_lookup g c rem")
          case (Inl e)
          with run Inr nodef True have "res = (Raised e, ?st2)" by (simp add: Let_def)
          then show ?thesis using q2 once_raised by simp
        next
          case (Inr cr)
          obtain c' rem' where cr: "cr = (c', rem')" by (cases cr) auto
          let ?st3 = "?st2\<lparr> url_path := (if same then url_path ?st2 else orig) \<rparr>"
          from run \<open>controller st1 = Inr c\<close> nodef True Inr cr
          have "dispatch_controller g rec self ''lookup'' c' ?st3 rem' = Some res"
            by (simp add: Let_def)
          moreover have "quiet st ?st3" using q2 by simp
          ultimately show ?thesis using dispatch_controller_once [OF nc rec] by blast
        qed
      next
        case False
        show ?thesis
        proof (cases "odict_pop (controller_path st1)")
          case (Inl e)
          with run Inr nodef False have "res = (Raised e, st1)" by simp
          then show ?thesis using q once_raised by simp
        next
          case (Inr cp)
          let ?st2 = "st1\<lparr> controller_path := cp, trace := trace st1 @ [Pop] \<rparr>"
          have q2: "quiet st ?st2" using q quiet_event [of st "st1\<lparr> controller_path := cp \<rparr>" Pop]
            by (simp add: is_add_method_def)
          show ?thesis
          proof (cases "url_path st1 = []")
            case True
            with run \<open>controller st1 = Inr c\<close> nodef False Inr
            have "first_found_loop g rec self orig same i ?st2 rem = Some res"
              by (simp add: Let_def)
            then show ?thesis using Suc.IH q2 by blast
          next
            case ne: False
            with run \<open>controller st1 = Inr c\<close> nodef False Inr
            have "first_found_loop g rec self orig same i
                    (?st2\<lparr> url_path := butlast (url_path st1) \<rparr>) (last (url_path st1) # rem) = Some res"
              by (simp add: Let_def)
            moreover have "quiet st (?st2\<lparr> url_path := butlast (url_path st1) \<rparr>)"
              using q2 by simp
            ultimately show ?thesis using Suc.IH by blast
          qed
        qed
      qed
    qed
  qed
qed

lemma dispatch_first_found_once:
  assumes nc: "\<forall>c. custom_dispatch g c = None" and rec: "rec_once rec"
      and q: "quiet st st1"
      and run: "dispatch_first_found_default_or_lookup g rec self st1 rem = Some res"
  shows "resolves_at_most_once st res"
proof -
  let ?st2 = "(if rem \<noteq> [] then st1\<lparr> url_path :=
                  take (length (url_path st1) - length rem) (url_path st1) \<rparr> else st1)"
  have "quiet st ?st2" using q by simp
  moreover have "first_found_loop g rec self (url_path st1) (rem = [])
                   (length (controller_path ?st2)) ?st2 rem = Some res"
    using run by (simp add: dispatch_first_found_default_or_lookup_def Let_def)
  ultimately show ?thesis using first_found_loop_once [OF nc rec] by blast
qed

lemma dispatch_body_once:
  assumes nc: "\<forall>c. custom_dispatch g c = None" and rec: "rec_once rec"
      and run: "dispatch_body g rec self st rem = Some res"
  shows "resolves_at_most_once st res"
proof (cases "controller st")
  case (Inl e)
  with run have "res = (Raised e, st)" by (simp add: dispatch_body_def)
  then show ?thesis using once_raised by simp
next
  case (Inr c)
  define st1 where "st1 = (if hasattr g c ''_check_security''
                           then st\<lparr> trace := trace st @ [CheckSecurity c] \<rparr> else st)"
  define sec where "sec = (if hasattr g c ''_check_security'' then check_security g c else None)"
  have q1: "quiet st st1" by (simp add: st1_def quiet_event is_add_method_def)
  have sc: "(if hasattr g c ''_check_security'' then call_check_security g c st else (None, st))
              = (sec, st1)"
    by (simp add: sec_def st1_def call_check_security_def)
  show ?thesis
  proof (cases sec)
    case (Some e)
    with run Inr sc have "res = (Raised e, st1)" by (simp add: dispatch_body_def)
    then show ?thesis using q1 once_raised by simp
  next
    case None
    show ?thesis
    proof (cases rem)
      case Nil
      show ?thesis
      proof (cases "getattr_of g c ''index''")
        case (Some m)
        with run Inr sc None Nil have "res = (Returned, add_method m [] st1)"
          by (simp add: dispatch_body_def)
        then show ?thesis using q1 once_returned by simp
      next
        case noindex: None
        with run Inr sc None Nil
        have "dispatch_first_found_default_or_lookup g rec self st1 [] = Some res"
          by (simp add: dispatch_body_def)
        then show ?thesis using dispatch_first_found_once [OF nc rec q1] by blast
      qed
    next
      case (Cons current_path rest)
      show ?thesis
      proof (cases "getattr_of g c current_path")
        case noattr: None
        with run Inr sc None Cons
        have "dispatch_first_found_default_or_lookup g rec self st1 rem = Some res"
          by (simp add: dispatch_body_def is_exposed_def)
        then show ?thesis using dispatch_first_found_once [OF nc rec q1] by blast
      next
        case (Some a)
        show ?thesis
        proof (cases "ismethod g a")
          case True
          with run Inr sc None Cons Some have "res = (Returned, add_method a rest st1)"
            by (simp add: dispatch_body_def is_exposed_def)
          then show ?thesis using q1 once_returned by simp
        next
          case False
          with run Inr sc None Cons Some
          have "dispatch_controller g rec self current_path a st1 rest = Some res"
            by (simp add: dispatch_body_def is_exposed_def)
          then show ?thesis using dispatch_controller_once [OF nc rec q1] by blast
        qed
      qed
    qed
  qed
qed

lemma dispatch_once:
  assumes nc: "\<forall>c. custom_dispatch g c = None"
  shows "rec_once (dispatch n g)"
proof (induction n)
  case 0
  then show ?case by (simp add: rec_once_def)
next
  case (Suc n)
  show ?case
    unfolding rec_once_def
    using dispatch_body_once [OF nc Suc] by simp
qed

lemmas dispatch_simps =
  dispatch_body_def dispatch_controller_def dispatch_first_found_default_or_lookup_def
  call_dispatch_def call_check_security_def hasattr_def is_exposed_def
  add_controller_def add_method_def controller_def
  odict_setitem_def odict_getitem_last_def odict_pop_def DispatchState_init_def

lemma chain_run:
  "dispatch (Suc (Suc (Suc (Suc 0)))) chain_graph 0 chain_start [''a'', ''b'', ''c'', ''extra'']
     = Some (Returned, chain_final)"
  by (simp add: chain_graph_def chain_start_def chain_final_def dispatch_simps)

text \<open>
  Claim C7. In a graph whose controllers all inherit \<^verbatim>\<open>_dispatch\<close> from
  \<^verbatim>\<open>ObjectDispatcher\<close>, a dispatch that comes back has called \<^verbatim>\<open>add_method\<close> at
  most once. When it has, that call is the last step of the traversal, the dispatch
  returns, and the state holds the handler and the remainder of that call. When it has
  not, the dispatch raised and left the handler and its remainder as they were.
\<close>

theorem handler_set_at_most_once:
  assumes "\<forall>c. custom_dispatch g c = None"
      and "dispatch n g self st rem = Some (out, st')"
  shows "resolves_at_most_once st (out, st')
       \<and> length (filter is_add_method (drop (length (trace st)) (trace st'))) \<le> 1"
proof -
  have once: "resolves_at_most_once st (out, st')"
    using dispatch_once [OF assms(1), of n] assms(2) by (auto simp: rec_once_def)
  then have "length (filter is_add_method (drop (length (trace st)) (trace st'))) \<le> 1"
    by (cases out) (auto simp: resolves_at_most_once_def is_add_method_def filter_empty_conv)
  with once show ?thesis by simp
qed

theorem handler_set_at_most_once_witness:
  "dispatch (Suc (Suc (Suc (Suc 0)))) chain_graph 0 chain_start
        [''a'', ''b'', ''c'', ''extra''] = Some (Returned, chain_final)
   \<and> length (filter is_add_method (drop (length (trace chain_start)) (trace chain_final))) \<le> 1"
proof -
  have h1: "\<forall>c. custom_dispatch chain_graph c = None" by (simp add: chain_graph_def)
  show ?thesis
    using chain_run handler_set_at_most_once [OF h1 chain_run] by simp
qed

subsection \<open>The fallback search\<close>

lemma backtrack_0 [simp]: "backtrack 0 st = st"
  by (simp add: backtrack_def)

lemma drop_last_segment: "u \<noteq> [] \<Longrightarrow> drop (length u - 1) u = [last u]"
  by (cases u rule: rev_cases) simp_all

lemma first_found_loop_pop:
  assumes cp: "controller_path st \<noteq> []"
      and no: "\<not> exposes_default_or_lookup g (snd (last (controller_path st)))"
  shows "first_found_loop g rec self orig same (Suc i) st rem =
           first_found_loop g rec self orig same i (backtrack 1 st)
             (drop (length (url_path st) - 1) (url_path st) @ rem)"
proof (cases "url_path st = []")
  case True
  then show ?thesis
    using cp no
    by (cases st)
       (simp add: controller_def odict_getitem_last_def odict_pop_def
          exposes_default_or_lookup_def backtrack_def butlast_conv_take)
next
  case False
  then show ?thesis
    using cp no drop_last_segment [OF False]
    by (cases st)
       (simp add: controller_def odict_getitem_last_def odict_pop_def
          exposes_default_or_lookup_def backtrack_def butlast_conv_take)
qed

lemma backtrack_Suc: "backtrack j (backtrack 1 st) = backtrack (Suc j) st"
  by (simp add: backtrack_def min_def replicate_append_same)

lemma drop_backtrack_Suc:
  "drop (length (url_path (backtrack 1 st)) - j) (url_path (backtrack 1 st))
     @ drop (length (url_path st) - 1) (url_path st)
   = drop (length (url_path st) - Suc j) (url_path st)"
proof (cases "url_path st" rule: rev_cases)
  case Nil
  then show ?thesis by (simp add: backtrack_def)
next
  case (snoc ys y)
  then show ?thesis by (simp add: backtrack_def)
qed

lemma first_found_loop_backtrack:
  "j \<le> length (controller_path st) \<Longrightarrow> j \<le> i
   \<Longrightarrow> \<forall>kc \<in> set (drop (length (controller_path st) - j) (controller_path st)).
         \<not> exposes_default_or_lookup g (snd kc)
   \<Longrightarrow> first_found_loop g rec self orig same i st rem =
         first_found_loop g rec self orig same (i - j) (backtrack j st)
           (drop (length (url_path st) - j) (url_path st) @ rem)"
proof (induction j arbitrary: i st rem)
  case 0
  then show ?case by simp
next
  case (Suc j)
  let ?cp = "controller_path st"
  from Suc.prems obtain i' where i: "i = Suc i'" by (cases i) auto
  from Suc.prems(1) obtain ys y where snoc: "?cp = ys @ [y]"
    by (cases ?cp rule: rev_cases) auto
  have cp: "?cp \<noteq> []" using snoc by simp
  have jy: "j \<le> length ys" using Suc.prems(1) snoc by simp
  have dr: "drop (length ?cp - Suc j) ?cp = drop (length ys - j) ys @ [y]"
    using snoc jy by simp
  have no: "\<not> exposes_default_or_lookup g (snd (last ?cp))"
    using Suc.prems(3) dr snoc by simp
  let ?st1 = "backtrack 1 st"
  have cp1: "controller_path ?st1 = ys" using snoc by (simp add: backtrack_def)
  have step: "first_found_loop g rec self orig same i st rem =
           first_found_loop g rec self orig same i' ?st1
             (drop (length (url_path st) - 1) (url_path st) @ rem)"
    using first_found_loop_pop [OF cp no] i by simp
  have ih: "first_found_loop g rec self orig same i' ?st1
             (drop (length (url_path st) - 1) (url_path st) @ rem)
     = first_found_loop g rec self orig same (i' - j) (backtrack j ?st1)
         (drop (length (url_path ?st1) - j) (url_path ?st1)
            @ (drop (length (url_path st) - 1) (url_path st) @ rem))"
  proof (rule Suc.IH)
    show "j \<le> length (controller_path ?st1)" using cp1 jy by simp
    show "j \<le> i'" using Suc.prems(2) i by simp
    show "\<forall>kc \<in> set (drop (length (controller_path ?st1) - j) (controller_path ?st1)).
            \<not> exposes_default_or_lookup g (snd kc)"
      using Suc.prems(3) dr cp1 by simp
  qed
  have rm: "drop (length (url_path ?st1) - j) (url_path ?st1)
            @ (drop (length (url_path st) - 1) (url_path st) @ rem)
          = drop (length (url_path st) - Suc j) (url_path st) @ rem"
    using drop_backtrack_Suc [of st j] by (metis append_assoc)
  show ?case
    unfolding step ih rm backtrack_Suc using i by simp
qed


lemma fallback_as_loop:
  "dispatch_first_found_default_or_lookup g rec self st rem =
     first_found_loop g rec self (url_path st) (rem = []) (length (controller_path st))
       (st\<lparr> url_path := matched_path st rem \<rparr>) rem"
  by (cases st) (simp add: dispatch_first_found_default_or_lookup_def matched_path_def Let_def)

lemma fallback_reaches:
  assumes cp: "controller_path st = kept @ (k, c) # gone"
      and no: "\<forall>kc \<in> set gone. \<not> exposes_default_or_lookup g (snd kc)"
  shows "dispatch_first_found_default_or_lookup g rec self st rem =
     first_found_loop g rec self (url_path st) (rem = []) (Suc (length kept))
       (found_state (length gone) st rem) (found_remainder (length gone) st rem)"
proof -
  let ?st0 = "st\<lparr> url_path := matched_path st rem \<rparr>"
  have "first_found_loop g rec self (url_path st) (rem = []) (length (controller_path st)) ?st0 rem
      = first_found_loop g rec self (url_path st) (rem = [])
          (length (controller_path st) - length gone) (backtrack (length gone) ?st0)
          (drop (length (url_path ?st0) - length gone) (url_path ?st0) @ rem)"
    by (rule first_found_loop_backtrack) (use cp no in simp_all)
  then show ?thesis
    using cp by (simp add: fallback_as_loop found_state_def found_remainder_def)
qed

lemma controller_found_state:
  "controller_path st = kept @ (k, c) # gone \<Longrightarrow> controller (found_state (length gone) st rem) = Inr c"
  by (simp add: controller_def found_state_def backtrack_def odict_getitem_last_def)


lemma fallback_default:
  assumes cp: "controller_path st = kept @ (k, c) # gone"
      and no: "\<forall>kc \<in> set gone. \<not> exposes_default_or_lookup g (snd kc)"
      and d: "getattr_of g c ''default'' = Some d" "ismethod g d"
  shows "dispatch_first_found_default_or_lookup g rec self st rem =
     Some (Returned,
       (add_method d (found_remainder (length gone) st rem) (found_state (length gone) st rem))
         \<lparr> dispatcher := Some self \<rparr>)"
  using d controller_found_state [OF cp]
  by (simp add: fallback_reaches [OF cp no] is_exposed_def)

lemma fallback_lookup:
  assumes cp: "controller_path st = kept @ (k, c) # gone"
      and no: "\<forall>kc \<in> set gone. \<not> exposes_default_or_lookup g (snd kc)"
      and l: "\<not> is_exposed g c ''default''" "is_exposed g c ''lookup''"
  shows "dispatch_first_found_default_or_lookup g rec self st rem =
     (case call_lookup g c (found_remainder (length gone) st rem) of
        Inl e \<Rightarrow> Some (Raised e, lookup_state (length gone) c st rem)
      | Inr (c', rem') \<Rightarrow>
          dispatch_controller g rec self ''lookup'' c'
            (restart_state (length gone) c st rem) rem')"
proof -
  have u: "url_path (found_state (length gone) st rem\<lparr>trace := t\<rparr>) = url_path (found_state (length gone) st rem)" for t
    by simp
  show ?thesis
    using l controller_found_state [OF cp]
    by (simp add: fallback_reaches [OF cp no] Let_def lookup_state_def restart_state_def
          split: sum.splits)
qed










lemma after_security_fields [simp]:
  "controller_path (after_security g c st) = controller_path st"
  "url_path (after_security g c st) = url_path st"
  by (simp_all add: after_security_def)

lemma found_remainder_after_security [simp]:
  "found_remainder j (after_security g c st) rem = found_remainder j st rem"
  by (simp add: found_remainder_def matched_path_def)





subsection \<open>Descent along a chain of controllers\<close>

lemma dispatch_descends:
  assumes c: "controller st = Inr c" and oc: "ordinary g c"
      and a: "getattr_of g c seg = Some c'" and nm: "\<not> ismethod g c'"
      and oc': "ordinary g c'"
  shows "\<exists>self' st1. dispatch (Suc n) g self st (seg # rest) = dispatch n g self' st1 rest
           \<and> controller_path st1 = odict_setitem seg c' (controller_path st)
           \<and> url_path st1 = url_path st"
proof -
  define st0 where "st0 = (if hasattr g c ''_check_security''
                           then st\<lparr> trace := trace st @ [CheckSecurity c] \<rparr> else st)"
  have sc: "(if hasattr g c ''_check_security'' then call_check_security g c st else (None, st))
              = (None, st0)"
    using oc by (simp add: st0_def call_check_security_def ordinary_def)
  have body: "dispatch (Suc n) g self st (seg # rest)
                = dispatch_controller g (dispatch n g) self seg c' st0 rest"
    using c sc a nm by (simp add: dispatch_body_def is_exposed_def)
  have f0: "controller_path st0 = controller_path st" "url_path st0 = url_path st"
    by (simp_all add: st0_def)
  show ?thesis
  proof (cases "hasattr g c' ''_dispatch''")
    case False
    then have "dispatch_controller g (dispatch n g) self seg c' st0 rest
                 = dispatch n g self (add_controller seg c' st0) rest"
      by (simp add: dispatch_controller_def)
    with body f0 show ?thesis
      by (intro exI [of _ self] exI [of _ "add_controller seg c' st0"])
         (simp add: add_controller_def)
  next
    case True
    define st1 where "st1 = (if hasattr g c' ''_check_security''
                             then st0\<lparr> trace := trace st0 @ [CheckSecurity c'] \<rparr> else st0)"
    have sc': "(if hasattr g c' ''_check_security'' then call_check_security g c' st0
                else (None, st0)) = (None, st1)"
      using oc' by (simp add: st1_def call_check_security_def ordinary_def)
    have "dispatch_controller g (dispatch n g) self seg c' st0 rest
            = dispatch n g c' ((add_controller seg c' st1)\<lparr> dispatcher := Some c' \<rparr>) rest"
      using True oc' sc'
      by (simp add: dispatch_controller_def ordinary_def call_dispatch_def)
    moreover have "controller_path st1 = controller_path st" "url_path st1 = url_path st"
      using f0 by (simp_all add: st1_def)
    ultimately show ?thesis
      using body
      by (intro exI [of _ c'] exI [of _ "(add_controller seg c' st1)\<lparr> dispatcher := Some c' \<rparr>"])
         (simp add: add_controller_def)
  qed
qed

lemma dispatch_falls_back:
  assumes c: "controller st = Inr c" and oc: "ordinary g c"
      and a: "getattr_of g c seg = None"
  shows "\<exists>st1. dispatch (Suc n) g self st (seg # rest)
                 = dispatch_first_found_default_or_lookup g (dispatch n g) self st1 (seg # rest)
           \<and> controller_path st1 = controller_path st
           \<and> url_path st1 = url_path st"
proof -
  define st0 where "st0 = (if hasattr g c ''_check_security''
                           then st\<lparr> trace := trace st @ [CheckSecurity c] \<rparr> else st)"
  have sc: "(if hasattr g c ''_check_security'' then call_check_security g c st else (None, st))
              = (None, st0)"
    using oc by (simp add: st0_def call_check_security_def ordinary_def)
  have "dispatch (Suc n) g self st (seg # rest)
          = dispatch_first_found_default_or_lookup g (dispatch n g) self st0 (seg # rest)"
    using c sc a by (simp add: dispatch_body_def is_exposed_def)
  moreover have "controller_path st0 = controller_path st" "url_path st0 = url_path st"
    by (simp_all add: st0_def)
  ultimately show ?thesis by blast
qed

lemma controller_by_path:
  "controller_path st = kept @ [(k, c)] \<Longrightarrow> controller st = Inr c"
  by (simp add: controller_def odict_getitem_last_def)

text \<open>
  Claim C1. The root has the controller \<open>A\<close> under \<^verbatim>\<open>a\<close>, \<open>A\<close> has \<open>B\<close> under \<^verbatim>\<open>b\<close>
  and \<open>B\<close> has \<open>C\<close> under \<^verbatim>\<open>c\<close>, all ordinary; \<open>C\<close> has nothing under
  \<^verbatim>\<open>extra\<close> and neither \<^verbatim>\<open>default\<close> nor \<^verbatim>\<open>lookup\<close>; \<open>B\<close> has the method \<open>d\<close> as its
  \<^verbatim>\<open>default\<close>. Then the dispatch of \<^verbatim>\<open>/a/b/c/extra\<close> returns with the handler \<open>d\<close> and
  the remainder \<^verbatim>\<open>['c', 'extra']\<close>, the controller on top of the stack being \<open>B\<close>: the
  search went back from \<open>C\<close> to \<open>B\<close> and put the popped segment before the remainder.
\<close>

theorem chain_falls_back_to_default:
  assumes ord: "ordinary g root" "ordinary g A" "ordinary g B" "ordinary g C"
      and a: "getattr_of g root ''a'' = Some A" "\<not> ismethod g A"
      and b: "getattr_of g A ''b'' = Some B" "\<not> ismethod g B"
      and c: "getattr_of g B ''c'' = Some C" "\<not> ismethod g C"
      and stuck: "getattr_of g C ''extra'' = None" "\<not> exposes_default_or_lookup g C"
      and d: "getattr_of g B ''default'' = Some d" "ismethod g d"
  shows "\<exists>rt re st'.
           get_dispatchable guess (Suc (Suc (Suc (Suc n)))) g root
             [''a'', ''b'', ''c'', ''extra''] ps = (rt, re, Some (Returned, st'))
           \<and> method_of st' = Some d \<and> remainder st' = Some [''c'', ''extra'']
           \<and> controller st' = Inr B"
proof -
  let ?path = "[''a'', ''b'', ''c'', ''extra'']"
  let ?st0 = "(add_controller ''/'' root (DispatchState_init ?path ps))\<lparr> dispatcher := Some root \<rparr>"
  have strip: "strip_extension guess ?path = (?path, None, None)"
    by (simp add: strip_extension_def)
  have start: "get_dispatchable guess (Suc (Suc (Suc (Suc n)))) g root ?path ps
                 = (None, None, dispatch (Suc (Suc (Suc (Suc n)))) g root ?st0 ?path)"
    using strip ord(1) by (simp add: get_dispatchable_def call_dispatch_def ordinary_def)
  have cp0: "controller_path ?st0 = [(''/'', root)]" "url_path ?st0 = ?path"
    by (simp_all add: add_controller_def DispatchState_init_def odict_setitem_def)
  have c0: "controller ?st0 = Inr root" by simp
  from dispatch_descends [OF c0 ord(1) a ord(2), of "Suc (Suc (Suc n))" root "[''b'', ''c'', ''extra'']"]
  obtain s1 st1 where
    r1: "dispatch (Suc (Suc (Suc (Suc n)))) g root ?st0 ?path
           = dispatch (Suc (Suc (Suc n))) g s1 st1 [''b'', ''c'', ''extra'']"
    and cp1: "controller_path st1 = [(''/'', root), (''a'', A)]" "url_path st1 = ?path"
    using cp0 by (auto simp: odict_setitem_def)
  have c1: "controller st1 = Inr A"
    using cp1 controller_by_path [of st1 "[(''/'', root)]" "''a''" A] by simp
  from dispatch_descends [OF c1 ord(2) b ord(3), of "Suc (Suc n)" s1 "[''c'', ''extra'']"]
  obtain s2 st2 where
    r2: "dispatch (Suc (Suc (Suc n))) g s1 st1 [''b'', ''c'', ''extra'']
           = dispatch (Suc (Suc n)) g s2 st2 [''c'', ''extra'']"
    and cp2: "controller_path st2 = [(''/'', root), (''a'', A), (''b'', B)]" "url_path st2 = ?path"
    using cp1 by (auto simp: odict_setitem_def)
  have c2: "controller st2 = Inr B"
    using cp2 controller_by_path [of st2 "[(''/'', root), (''a'', A)]" "''b''" B] by simp
  from dispatch_descends [OF c2 ord(3) c ord(4), of "Suc n" s2 "[''extra'']"]
  obtain s3 st3 where
    r3: "dispatch (Suc (Suc n)) g s2 st2 [''c'', ''extra'']
           = dispatch (Suc n) g s3 st3 [''extra'']"
    and cp3: "controller_path st3 = [(''/'', root), (''a'', A), (''b'', B), (''c'', C)]"
             "url_path st3 = ?path"
    using cp2 by (auto simp: odict_setitem_def)
  have c3: "controller st3 = Inr C"
    using cp3 controller_by_path [of st3 "[(''/'', root), (''a'', A), (''b'', B)]" "''c''" C]
    by simp
  from dispatch_falls_back [OF c3 ord(4) stuck(1), of n s3 "[]"]
  obtain st4 where
    r4: "dispatch (Suc n) g s3 st3 [''extra'']
           = dispatch_first_found_default_or_lookup g (dispatch n g) s3 st4 [''extra'']"
    and cp4: "controller_path st4 = [(''/'', root), (''a'', A)] @ (''b'', B) # [(''c'', C)]"
             "url_path st4 = ?path"
    using cp3 by auto
  have gone: "\<forall>kc \<in> set [(''c'', C)]. \<not> exposes_default_or_lookup g (snd kc)"
    using stuck(2) by simp
  let ?st' = "(add_method d (found_remainder (length [(''c'', C)]) st4 [''extra''])
                 (found_state (length [(''c'', C)]) st4 [''extra'']))\<lparr> dispatcher := Some s3 \<rparr>"
  have r5: "dispatch_first_found_default_or_lookup g (dispatch n g) s3 st4 [''extra'']
              = Some (Returned, ?st')"
    by (rule fallback_default [OF cp4(1) gone d])
  have "method_of ?st' = Some d" by (simp add: add_method_def)
  moreover have "remainder ?st' = Some [''c'', ''extra'']"
    using cp4(2) by (simp add: add_method_def found_remainder_def matched_path_def)
  moreover have "controller ?st' = Inr B"
    using cp4(1)
    by (simp add: add_method_def controller_def found_state_def backtrack_def
          odict_getitem_last_def)
  ultimately show ?thesis
    using start r1 r2 r3 r4 r5 by simp
qed

theorem chain_falls_back_to_default_witness:
  "\<exists>st'. get_dispatchable (\<lambda>s. None) (Suc (Suc (Suc (Suc 0)))) chain_graph 0
            [''a'', ''b'', ''c'', ''extra''] Map.empty = (None, None, Some (Returned, st'))
         \<and> method_of st' = Some 10 \<and> remainder st' = Some [''c'', ''extra'']
         \<and> controller st' = Inr 2"
proof -
  have o: "ordinary chain_graph 0" "ordinary chain_graph 1" "ordinary chain_graph 2"
          "ordinary chain_graph 3"
    by (simp_all add: ordinary_def chain_graph_def hasattr_def)
  have h: "getattr_of chain_graph 0 ''a'' = Some 1" "\<not> ismethod chain_graph 1"
          "getattr_of chain_graph 1 ''b'' = Some 2" "\<not> ismethod chain_graph 2"
          "getattr_of chain_graph 2 ''c'' = Some 3" "\<not> ismethod chain_graph 3"
          "getattr_of chain_graph 3 ''extra'' = None"
          "\<not> exposes_default_or_lookup chain_graph 3"
          "getattr_of chain_graph 2 ''default'' = Some 10" "ismethod chain_graph 10"
    by (simp_all add: chain_graph_def exposes_default_or_lookup_def is_exposed_def)
  from chain_falls_back_to_default [OF o h, of "\<lambda>s. None" 0 Map.empty]
  obtain rt re st' where
    r: "get_dispatchable (\<lambda>s. None) (Suc (Suc (Suc (Suc 0)))) chain_graph 0
          [''a'', ''b'', ''c'', ''extra''] Map.empty = (rt, re, Some (Returned, st'))"
       "method_of st' = Some 10" "remainder st' = Some [''c'', ''extra'']"
       "controller st' = Inr 2"
    by blast
  have "fst (get_dispatchable (\<lambda>s. None) (Suc (Suc (Suc (Suc 0)))) chain_graph 0
          [''a'', ''b'', ''c'', ''extra''] Map.empty) = None"
       "fst (snd (get_dispatchable (\<lambda>s. None) (Suc (Suc (Suc (Suc 0)))) chain_graph 0
          [''a'', ''b'', ''c'', ''extra''] Map.empty)) = None"
    by (simp_all add: get_dispatchable_def strip_extension_def split: prod.splits)
  with r(1) have "rt = None" "re = None" by simp_all
  with r show ?thesis by blast
qed

subsection \<open>A restarted dispatch and a fresh one\<close>

lemma pops_fields [simp]:
  "pops (st\<lparr> url_path := u \<rparr>) = pops st"
  "pops (st\<lparr> controller_path := cp \<rparr>) = pops st"
  "pops (st\<lparr> dispatcher := d \<rparr>) = pops st"
  by (simp_all add: pops_def)

lemma pops_add_controller [simp]: "pops (add_controller k c st) = pops st"
  by (simp add: pops_def add_controller_def)

lemma pops_events:
  "\<forall>e \<in> set evs. e \<noteq> Pop \<Longrightarrow> pops (st\<lparr> trace := trace st @ evs \<rparr>) = pops st"
  by (simp add: pops_def filter_empty_conv)

lemma pops_pop: "pops (st\<lparr> trace := trace st @ [Pop] \<rparr>) = Suc (pops st)"
  by (simp add: pops_def)

lemma once_pops: "resolves_at_most_once st res \<Longrightarrow> pops st \<le> pops (snd res)"
  by (auto simp: resolves_at_most_once_def pops_def)

lemma rec_agreesD:
  assumes "rec_agrees rec" "controller st1 = controller st2"
      and "rec s1 st1 rem = Some (out, st1')" "pops st1' = pops st1"
  shows "\<exists>st2'. rec s2 st2 rem = Some (out, st2')
           \<and> (out = Returned \<longrightarrow> method_of st2' = method_of st1'
                                \<and> remainder st2' = remainder st1')"
  using assms unfolding rec_agrees_def by blast

lemma dispatch_controller_agrees:
  assumes nc: "\<forall>c. custom_dispatch g c = None" and ra: "rec_agrees rec"
      and run: "dispatch_controller g rec s1 k c st1 rem = Some (out, st1')"
      and np: "pops st1' = pops st1"
  shows "\<exists>st2'. dispatch_controller g rec s2 k c st2 rem = Some (out, st2')
           \<and> (out = Returned \<longrightarrow> method_of st2' = method_of st1'
                                \<and> remainder st2' = remainder st1')"
proof (cases "hasattr g c ''_dispatch''")
  case False
  with run nc have r1: "rec s1 (add_controller k c st1) rem = Some (out, st1')"
    by (simp add: dispatch_controller_eq)
  have "\<exists>st2'. rec s2 (add_controller k c st2) rem = Some (out, st2')
           \<and> (out = Returned \<longrightarrow> method_of st2' = method_of st1'
                                \<and> remainder st2' = remainder st1')"
    by (rule rec_agreesD [OF ra _ r1]) (simp_all add: np)
  with False nc show ?thesis by (simp add: dispatch_controller_eq)
next
  case True
  obtain r evs where es: "entry_steps g c = (r, evs)" by (cases "entry_steps g c") auto
  have nopop: "\<forall>e \<in> set evs. e \<noteq> Pop" using es entry_steps_quiet by blast
  show ?thesis
  proof (cases r)
    case (Inl e)
    with run True nc es have "out = Raised e" by (simp add: dispatch_controller_eq)
    with Inl True nc es show ?thesis by (simp add: dispatch_controller_eq)
  next
    case (Inr c1)
    let ?a1 = "(add_controller k c1 (st1\<lparr> trace := trace st1 @ evs \<rparr>))\<lparr> dispatcher := Some c1 \<rparr>"
    let ?a2 = "(add_controller k c1 (st2\<lparr> trace := trace st2 @ evs \<rparr>))\<lparr> dispatcher := Some c1 \<rparr>"
    from run True nc es Inr have r1: "rec c1 ?a1 rem = Some (out, st1')"
      by (simp add: dispatch_controller_eq)
    have "\<exists>st2'. rec c1 ?a2 rem = Some (out, st2')
           \<and> (out = Returned \<longrightarrow> method_of st2' = method_of st1'
                                \<and> remainder st2' = remainder st1')"
      by (rule rec_agreesD [OF ra _ r1]) (simp_all add: np pops_events [OF nopop])
    with Inr True nc es show ?thesis by (simp add: dispatch_controller_eq)
  qed
qed

lemma first_found_loop_agrees:
  assumes nc: "\<forall>c. custom_dispatch g c = None" and ro: "rec_once rec" and ra: "rec_agrees rec"
      and ceq: "controller st1 = controller st2"
      and run: "first_found_loop g rec s1 o1 b1 (Suc i1) st1 rem = Some (out, st1')"
      and np: "pops st1' = pops st1"
  shows "\<exists>st2'. first_found_loop g rec s2 o2 b2 (Suc i2) st2 rem = Some (out, st2')
           \<and> (out = Returned \<longrightarrow> method_of st2' = method_of st1'
                                \<and> remainder st2' = remainder st1')"
proof (cases "controller st1")
  case (Inl e)
  with run have "out = Raised e" by simp
  with Inl ceq show ?thesis by simp
next
  case (Inr c)
  then have c2: "controller st2 = Inr c" using ceq by simp
  show ?thesis
  proof (cases "is_exposed g c ''default''")
    case True
    then obtain m where m: "getattr_of g c ''default'' = Some m"
      by (auto simp: is_exposed_def split: option.splits)
    with run Inr True
    have "out = Returned" "st1' = (add_method m rem st1)\<lparr> dispatcher := Some s1 \<rparr>"
      by simp_all
    with c2 True m show ?thesis by (simp add: add_method_def)
  next
    case nodef: False
    show ?thesis
    proof (cases "is_exposed g c ''lookup''")
      case True
      show ?thesis
      proof (cases "call_lookup g c rem")
        case (Inl e)
        with run Inr nodef True have "out = Raised e" by (simp add: Let_def)
        with Inl c2 nodef True show ?thesis by (simp add: Let_def)
      next
        case (Inr cr)
        obtain c' rem' where cr: "cr = (c', rem')" by (cases cr) auto
        let ?l1 = "st1\<lparr> trace := trace st1 @ [CallLookup c rem] \<rparr>"
        let ?l2 = "st2\<lparr> trace := trace st2 @ [CallLookup c rem] \<rparr>"
        let ?r1 = "?l1\<lparr> url_path := (if b1 then url_path ?l1 else o1) \<rparr>"
        let ?r2 = "?l2\<lparr> url_path := (if b2 then url_path ?l2 else o2) \<rparr>"
        from run \<open>controller st1 = Inr c\<close> nodef True Inr cr
        have r1: "dispatch_controller g rec s1 ''lookup'' c' ?r1 rem' = Some (out, st1')"
          by (simp add: Let_def)
        have p1: "pops st1' = pops ?r1"
          using np pops_events [of "[CallLookup c rem]" st1] by simp
        have "\<exists>st2'. dispatch_controller g rec s2 ''lookup'' c' ?r2 rem' = Some (out, st2')
           \<and> (out = Returned \<longrightarrow> method_of st2' = method_of st1'
                                \<and> remainder st2' = remainder st1')"
          by (rule dispatch_controller_agrees [OF nc ra r1 p1])
        with c2 nodef True Inr cr show ?thesis by (simp add: Let_def)
      qed
    next
      case False
      have cpne: "controller_path st1 \<noteq> []"
        using \<open>controller st1 = Inr c\<close>
        by (auto simp: controller_def odict_getitem_last_def split: if_splits)
      let ?p1 = "st1\<lparr> controller_path := butlast (controller_path st1),
                       trace := trace st1 @ [Pop] \<rparr>"
      define st1b where "st1b = (if url_path st1 \<noteq> []
                                 then ?p1\<lparr> url_path := butlast (url_path st1) \<rparr> else ?p1)"
      define remb where "remb = (if url_path st1 \<noteq> [] then last (url_path st1) # rem else rem)"
      have pb: "pops st1b = Suc (pops st1)"
        using pops_pop [of "st1\<lparr> controller_path := butlast (controller_path st1) \<rparr>"]
        by (simp add: st1b_def)
      from run \<open>controller st1 = Inr c\<close> nodef False cpne
      have "first_found_loop g rec s1 o1 b1 i1 st1b remb = Some (out, st1')"
        by (cases "url_path st1 = []") (simp_all add: Let_def odict_pop_def st1b_def remb_def)
      then have "resolves_at_most_once st1b (out, st1')"
        using first_found_loop_once [OF nc ro quiet_refl] by blast
      then have "pops st1b \<le> pops st1'" using once_pops by fastforce
      with pb np show ?thesis by simp
    qed
  qed
qed

lemma controller_Inr_nonempty: "controller st = Inr c \<Longrightarrow> controller_path st \<noteq> []"
  by (auto simp: controller_def odict_getitem_last_def split: if_splits)

lemma dispatch_first_found_agrees:
  assumes nc: "\<forall>c. custom_dispatch g c = None" and ro: "rec_once rec" and ra: "rec_agrees rec"
      and c1: "controller st1 = Inr c" and c2: "controller st2 = Inr c"
      and run: "dispatch_first_found_default_or_lookup g rec s1 st1 rem = Some (out, st1')"
      and np: "pops st1' = pops st1"
  shows "\<exists>st2'. dispatch_first_found_default_or_lookup g rec s2 st2 rem = Some (out, st2')
           \<and> (out = Returned \<longrightarrow> method_of st2' = method_of st1'
                                \<and> remainder st2' = remainder st1')"
proof -
  obtain i1 where i1: "length (controller_path st1) = Suc i1"
    using controller_Inr_nonempty [OF c1] by (cases "controller_path st1") auto
  obtain i2 where i2: "length (controller_path st2) = Suc i2"
    using controller_Inr_nonempty [OF c2] by (cases "controller_path st2") auto
  let ?m1 = "st1\<lparr> url_path := matched_path st1 rem \<rparr>"
  let ?m2 = "st2\<lparr> url_path := matched_path st2 rem \<rparr>"
  from run i1
  have r1: "first_found_loop g rec s1 (url_path st1) (rem = []) (Suc i1) ?m1 rem = Some (out, st1')"
    by (simp add: fallback_as_loop)
  have "\<exists>st2'. first_found_loop g rec s2 (url_path st2) (rem = []) (Suc i2) ?m2 rem
                  = Some (out, st2')
           \<and> (out = Returned \<longrightarrow> method_of st2' = method_of st1'
                                \<and> remainder st2' = remainder st1')"
    by (rule first_found_loop_agrees [OF nc ro ra _ r1]) (simp_all add: c1 c2 np)
  then show ?thesis using i2 by (simp add: fallback_as_loop)
qed


lemma dispatch_body_agrees:
  assumes nc: "\<forall>c. custom_dispatch g c = None" and ro: "rec_once rec" and ra: "rec_agrees rec"
      and ceq: "controller st1 = controller st2"
      and run: "dispatch_body g rec s1 st1 rem = Some (out, st1')"
      and np: "pops st1' = pops st1"
  shows "\<exists>st2'. dispatch_body g rec s2 st2 rem = Some (out, st2')
           \<and> (out = Returned \<longrightarrow> method_of st2' = method_of st1'
                                \<and> remainder st2' = remainder st1')"
proof (cases "controller st1")
  case (Inl e)
  with run have "out = Raised e" by (simp add: dispatch_body_def)
  with Inl ceq show ?thesis by (simp add: dispatch_body_def)
next
  case (Inr c)
  then have c2: "controller st2 = Inr c" using ceq by simp
  define sec where "sec = (if hasattr g c ''_check_security'' then check_security g c else None)"
  define a1 where "a1 = (if hasattr g c ''_check_security''
                         then st1\<lparr> trace := trace st1 @ [CheckSecurity c] \<rparr> else st1)"
  define a2 where "a2 = (if hasattr g c ''_check_security''
                         then st2\<lparr> trace := trace st2 @ [CheckSecurity c] \<rparr> else st2)"
  have sc1: "(if hasattr g c ''_check_security'' then call_check_security g c st1
              else (None, st1)) = (sec, a1)"
    by (simp add: sec_def a1_def call_check_security_def)
  have sc2: "(if hasattr g c ''_check_security'' then call_check_security g c st2
              else (None, st2)) = (sec, a2)"
    by (simp add: sec_def a2_def call_check_security_def)
  have pa: "pops a1 = pops st1"
    using pops_events [of "[CheckSecurity c]" st1] by (simp add: a1_def)
  have ca: "controller a1 = Inr c" "controller a2 = Inr c"
    using Inr c2 by (simp_all add: a1_def a2_def)
  show ?thesis
  proof (cases sec)
    case (Some e)
    with run Inr sc1 have "out = Raised e" by (simp add: dispatch_body_def)
    with Some c2 sc2 show ?thesis by (simp add: dispatch_body_def)
  next
    case None
    show ?thesis
    proof (cases rem)
      case Nil
      show ?thesis
      proof (cases "getattr_of g c ''index''")
        case (Some m)
        with run Inr sc1 None Nil have "out = Returned" "st1' = add_method m [] a1"
          by (simp_all add: dispatch_body_def)
        with Some c2 sc2 None Nil show ?thesis
          by (simp add: dispatch_body_def add_method_def)
      next
        case noindex: None
        with run Inr sc1 None Nil
        have r1: "dispatch_first_found_default_or_lookup g rec s1 a1 [] = Some (out, st1')"
          by (simp add: dispatch_body_def)
        have "\<exists>st2'. dispatch_first_found_default_or_lookup g rec s2 a2 [] = Some (out, st2')
           \<and> (out = Returned \<longrightarrow> method_of st2' = method_of st1'
                                \<and> remainder st2' = remainder st1')"
          by (rule dispatch_first_found_agrees [OF nc ro ra ca r1]) (simp add: np pa)
        with noindex c2 sc2 None Nil show ?thesis by (simp add: dispatch_body_def)
      qed
    next
      case (Cons seg rest)
      show ?thesis
      proof (cases "getattr_of g c seg")
        case noattr: None
        with run Inr sc1 None Cons
        have r1: "dispatch_first_found_default_or_lookup g rec s1 a1 rem = Some (out, st1')"
          by (simp add: dispatch_body_def is_exposed_def)
        have "\<exists>st2'. dispatch_first_found_default_or_lookup g rec s2 a2 rem = Some (out, st2')
           \<and> (out = Returned \<longrightarrow> method_of st2' = method_of st1'
                                \<and> remainder st2' = remainder st1')"
          by (rule dispatch_first_found_agrees [OF nc ro ra ca r1]) (simp add: np pa)
        with noattr c2 sc2 None Cons show ?thesis
          by (simp add: dispatch_body_def is_exposed_def)
      next
        case (Some a)
        show ?thesis
        proof (cases "ismethod g a")
          case True
          with run Inr sc1 None Cons Some have "out = Returned" "st1' = add_method a rest a1"
            by (simp_all add: dispatch_body_def is_exposed_def)
          with True Some c2 sc2 None Cons show ?thesis
            by (simp add: dispatch_body_def is_exposed_def add_method_def)
        next
          case False
          with run Inr sc1 None Cons Some
          have r1: "dispatch_controller g rec s1 seg a a1 rest = Some (out, st1')"
            by (simp add: dispatch_body_def is_exposed_def)
          have "\<exists>st2'. dispatch_controller g rec s2 seg a a2 rest = Some (out, st2')
           \<and> (out = Returned \<longrightarrow> method_of st2' = method_of st1'
                                \<and> remainder st2' = remainder st1')"
            by (rule dispatch_controller_agrees [OF nc ra r1]) (simp add: np pa)
          with False Some c2 sc2 None Cons show ?thesis
            by (simp add: dispatch_body_def is_exposed_def)
        qed
      qed
    qed
  qed
qed

lemma dispatch_agrees:
  assumes nc: "\<forall>c. custom_dispatch g c = None"
  shows "rec_agrees (dispatch n g)"
proof (induction n)
  case 0
  then show ?case by (simp add: rec_agrees_def)
next
  case (Suc n)
  show ?case
    unfolding rec_agrees_def
  proof (intro allI impI)
    fix s1 s2 st1 st2 rem out st1'
    assume h: "controller st1 = controller st2
        \<and> dispatch (Suc n) g s1 st1 rem = Some (out, st1') \<and> pops st1' = pops st1"
    then have r1: "dispatch_body g (dispatch n g) s1 st1 rem = Some (out, st1')" by simp
    have "\<exists>st2'. dispatch_body g (dispatch n g) s2 st2 rem = Some (out, st2')
           \<and> (out = Returned \<longrightarrow> method_of st2' = method_of st1'
                                \<and> remainder st2' = remainder st1')"
      by (rule dispatch_body_agrees [OF nc dispatch_once [OF nc] Suc _ r1]) (use h in simp_all)
    then show "\<exists>st2'. dispatch (Suc n) g s2 st2 rem = Some (out, st2')
           \<and> (out = Returned \<longrightarrow> method_of st2' = method_of st1'
                                \<and> remainder st2' = remainder st1')"
      by simp
  qed
qed

lemma restart_agrees_with_fresh:
  assumes nc: "\<forall>c. custom_dispatch g c = None"
      and x: "\<not> isclass g x" "getattr_of g x ''im_self'' = None"
      and fresh: "dispatch n g x (fresh_state x r ps) r = Some (out, stf)"
      and nopop: "Pop \<notin> set (trace stf)"
  shows "\<exists>st'. dispatch_controller g (dispatch n g) self ''lookup'' x st r = Some (out, st')
           \<and> (out = Returned \<longrightarrow> method_of st' = method_of stf
                                \<and> remainder st' = remainder stf)"
proof -
  have cf: "controller (fresh_state x r ps) = Inr x" by (simp add: fresh_state_def)
  have pf: "pops stf = pops (fresh_state x r ps)"
    using nopop
    by (auto simp: pops_def fresh_state_def add_controller_def DispatchState_init_def
          filter_empty_conv)
  show ?thesis
  proof (cases "hasattr g x ''_dispatch''")
    case False
    have "\<exists>st'. dispatch n g self (add_controller ''lookup'' x st) r = Some (out, st')
           \<and> (out = Returned \<longrightarrow> method_of st' = method_of stf
                                \<and> remainder st' = remainder stf)"
      by (rule rec_agreesD [OF dispatch_agrees [OF nc] _ fresh pf]) (simp add: cf)
    with False nc show ?thesis by (simp add: dispatch_controller_eq)
  next
    case True
    show ?thesis
    proof (cases "hasattr g x ''_check_security'' \<and> check_security g x \<noteq> None")
      case deny: True
      then obtain e where e: "check_security g x = Some e" by auto
      from fresh obtain m where n: "n = Suc m" by (cases n) auto
      from fresh n cf deny e have "out = Raised e"
        by (simp add: dispatch_body_def call_check_security_def)
      with True deny e x nc show ?thesis
        by (simp add: dispatch_controller_eq entry_steps_def)
    next
      case pass: False
      define evs where "evs = (if hasattr g x ''_check_security'' then [CheckSecurity x] else [])"
      have es: "entry_steps g x = (Inr x, evs)"
        using x pass by (auto simp: entry_steps_def evs_def)
      let ?a = "(add_controller ''lookup'' x (st\<lparr> trace := trace st @ evs \<rparr>))
                  \<lparr> dispatcher := Some x \<rparr>"
      have "\<exists>st'. dispatch n g x ?a r = Some (out, st')
           \<and> (out = Returned \<longrightarrow> method_of st' = method_of stf
                                \<and> remainder st' = remainder stf)"
        by (rule rec_agreesD [OF dispatch_agrees [OF nc] _ fresh pf]) (simp add: cf)
      with True es nc show ?thesis by (simp add: dispatch_controller_eq)
    qed
  qed
qed


text \<open>
  Claim C3, as amended. In a graph whose controllers all inherit \<^verbatim>\<open>_dispatch\<close>, let the
  fallback search find the \<^verbatim>\<open>lookup\<close> of a controller and let that \<^verbatim>\<open>lookup\<close> return
  the controller \<open>x\<close>, an instance, with the remainder \<open>r\<close>. If the dispatch started
  fresh at \<open>x\<close> on \<open>r\<close> comes back without having popped a controller, then the search
  comes back the same way: with the same exception, or with the same handler and the
  same remainder. Nothing is said of a fresh dispatch that has to go back past a
  controller: the restarted one still has the controllers visited before the
  \<^verbatim>\<open>lookup\<close> on its stack, and goes on to them.
\<close>

theorem lookup_restart_as_fresh_dispatch:
  assumes nc: "\<forall>c. custom_dispatch g c = None"
      and cp: "controller_path st = kept @ (k, holder) # gone"
      and no: "\<forall>kc \<in> set gone. \<not> exposes_default_or_lookup g (snd kc)"
      and l: "\<not> is_exposed g holder ''default''" "is_exposed g holder ''lookup''"
      and ret: "call_lookup g holder (found_remainder (length gone) st rem) = Inr (x, r)"
      and x: "\<not> isclass g x" "getattr_of g x ''im_self'' = None"
      and fresh: "dispatch n g x (fresh_state x r ps) r = Some (out, stf)"
      and nopop: "Pop \<notin> set (trace stf)"
  shows "\<exists>st'. dispatch_first_found_default_or_lookup g (dispatch n g) self st rem
                 = Some (out, st')
           \<and> (out = Returned \<longrightarrow> method_of st' = method_of stf
                                \<and> remainder st' = remainder stf)"
proof -
  have "dispatch_first_found_default_or_lookup g (dispatch n g) self st rem
          = dispatch_controller g (dispatch n g) self ''lookup'' x
              (restart_state (length gone) holder st rem) r"
    using fallback_lookup [OF cp no l, of "dispatch n g" self rem] ret by simp
  then show ?thesis
    using restart_agrees_with_fresh [OF nc x fresh nopop] by simp
qed

theorem lookup_restart_as_fresh_dispatch_witness:
  "call_lookup restart_graph 0 [''w''] = Inr (2, [''y''])
   \<and> dispatch (Suc 0) restart_graph 2 (fresh_state 2 [''y''] Map.empty) [''y'']
       = Some (Returned, add_method 12 [] (fresh_state 2 [''y''] Map.empty))
   \<and> (\<exists>st'. dispatch_first_found_default_or_lookup restart_graph (dispatch (Suc 0) restart_graph)
               0 (fresh_state 0 [''w''] Map.empty) [''w''] = Some (Returned, st')
          \<and> method_of st' = Some 12 \<and> remainder st' = Some [])"
proof -
  have h1: "\<forall>c. custom_dispatch restart_graph c = None" by (simp add: restart_graph_def)
  have h2: "controller_path (fresh_state 0 [''w''] Map.empty) = [] @ (''/'', 0) # []"
    by (simp add: fresh_state_def add_controller_def DispatchState_init_def odict_setitem_def)
  have h3: "\<forall>kc \<in> set ([]::(string \<times> obj) list). \<not> exposes_default_or_lookup restart_graph (snd kc)"
    by simp
  have h4: "\<not> is_exposed restart_graph 0 ''default''" "is_exposed restart_graph 0 ''lookup''"
    by (simp_all add: is_exposed_def restart_graph_def)
  have h5: "call_lookup restart_graph 0
              (found_remainder (length ([]::(string \<times> obj) list))
                 (fresh_state 0 [''w''] Map.empty) [''w'']) = Inr (2, [''y''])"
    by (simp add: restart_graph_def found_remainder_def matched_path_def fresh_state_def
          add_controller_def DispatchState_init_def)
  have h6: "\<not> isclass restart_graph 2" "getattr_of restart_graph 2 ''im_self'' = None"
    by (simp_all add: restart_graph_def)
  have h7: "dispatch (Suc 0) restart_graph 2 (fresh_state 2 [''y''] Map.empty) [''y'']
              = Some (Returned, add_method 12 [] (fresh_state 2 [''y''] Map.empty))"
    by (simp add: restart_graph_def fresh_state_def dispatch_simps)
  have h8: "Pop \<notin> set (trace (add_method 12 [] (fresh_state 2 [''y''] Map.empty)))"
    by (simp add: fresh_state_def add_method_def add_controller_def DispatchState_init_def)
  have h9: "call_lookup restart_graph 0 [''w''] = Inr (2, [''y''])"
    by (simp add: restart_graph_def)
  show ?thesis
    using h7 h9 lookup_restart_as_fresh_dispatch [OF h1 h2 h3 h4 h5 h6 h7 h8, of 0]
    by (simp add: add_method_def)
qed

text \<open>
  Claim C3 as stated fails. The \<^verbatim>\<open>lookup\<close> of the root returns the controller \<open>1\<close> with
  the remainder \<^verbatim>\<open>['y']\<close>. A dispatch started fresh at \<open>1\<close> on \<^verbatim>\<open>['y']\<close> raises
  \<^verbatim>\<open>HTTPNotFound\<close>. The dispatch of \<^verbatim>\<open>/q\<close>, restarted at \<open>1\<close> on \<^verbatim>\<open>['y']\<close> by that
  \<^verbatim>\<open>lookup\<close>, goes back past \<open>1\<close> to the root, calls its \<^verbatim>\<open>lookup\<close> again and returns
  with the handler \<open>12\<close>.
\<close>

theorem restarted_dispatch_backtracks_further:
  "call_lookup restart_graph 0 [''q''] = Inr (1, [''y''])
   \<and> map_option fst (dispatch (Suc (Suc (Suc (Suc 0)))) restart_graph 1
                       (fresh_state 1 [''y''] Map.empty) [''y''])
       = Some (Raised HTTPNotFound)
   \<and> map_option fst (dispatch (Suc (Suc (Suc (Suc 0)))) restart_graph 0
                       (fresh_state 0 [''q''] Map.empty) [''q''])
       = Some Returned
   \<and> map_option (method_of \<circ> snd) (dispatch (Suc (Suc (Suc (Suc 0)))) restart_graph 0
                       (fresh_state 0 [''q''] Map.empty) [''q''])
       = Some (Some 12)"
  by (simp add: restart_graph_def fresh_state_def dispatch_simps)

subsection \<open>Extension stripping and the matching of segments\<close>





end
